theory Spec2Isabelle
  imports Main "HOL-Library.Word"
begin

unbundle bit_operations_syntax

section \<open>The bounded MPMC queue of \<^verbatim>\<open>ut0mpmcbq.h\<close>, executed sequentially\<close>

text \<open>
  The embedding follows \<^verbatim>\<open>storage/innobase/include/ut0mpmcbq.h\<close>. The calls of
  the class are run one after the other (no interleaving inside a call), so every atomic
  load and store is a plain read and write of the queue record. \<^verbatim>\<open>size_t\<close> and
  \<^verbatim>\<open>intptr_t\<close> are 64 bits wide.
\<close>

subsection \<open>Data\<close>

type_synonym size_t = "64 word"

text \<open>\<^verbatim>\<open>struct Cell { std::atomic<size_t> m_pos; T m_data; }\<close>\<close>

record 'a Cell =
  m_pos :: size_t
  m_data :: 'a

text \<open>
  The data members of \<^verbatim>\<open>mpmc_bq<T>\<close>; the padding members carry no value.
  \<open>m_capacity\<close> holds \<open>n_elems - 1\<close>, the index mask.
\<close>

record 'a mpmc_bq =
  m_ring :: "'a Cell list"
  m_capacity :: size_t
  m_enqueue_pos :: size_t
  m_dequeue_pos :: size_t

subsection \<open>Constructor\<close>

text \<open>
  \<^verbatim>\<open>UT_NEW_ARRAY_NOKEY(Aligned, n_elems)\<close> returns \<open>n_elems\<close> cells of raw storage.
  Nothing initialises them, so their content is a parameter: \<open>raw i\<close> is whatever
  the storage of cell \<open>i\<close> holds. Allocation failure is not modelled.
\<close>

definition UT_NEW_ARRAY_NOKEY :: "(nat \<Rightarrow> 'a Cell) \<Rightarrow> size_t \<Rightarrow> 'a Cell list" where
  "UT_NEW_ARRAY_NOKEY raw n_elems = map raw [0..<unat n_elems]"

text \<open>
  \<^verbatim>\<open>for (size_t i = 0; i < n_elems; ++i) m_ring[i].m_pos.store(i, relaxed);\<close>
\<close>

function init_loop :: "'a Cell list \<Rightarrow> size_t \<Rightarrow> size_t \<Rightarrow> 'a Cell list" where
  "init_loop ring i n_elems =
     (if i < n_elems
      then init_loop (ring[unat i := (ring ! unat i)\<lparr>m_pos := i\<rparr>]) (i + 1) n_elems
      else ring)"
  by pat_completeness auto
termination
proof (relation "measure (\<lambda>(ring, i, n_elems). unat n_elems - unat i)")
  show "wf (measure (\<lambda>(ring :: 'a Cell list, i :: size_t, n_elems :: size_t).
              unat n_elems - unat i))"
    by simp
next
  fix ring :: "'a Cell list" and i n_elems :: size_t
  assume lt: "i < n_elems"
  then have "unat i < unat n_elems"
    by (simp add: word_less_nat_alt)
  moreover have "unat (i + 1) = unat i + 1"
    using lt
    by (metis (no_types, lifting) add.commute add_0 inc_i inc_le
        unat_plus_simple unsigned_0 unsigned_1 word_gt_0)
  ultimately show "((ring[unat i := (ring ! unat i)\<lparr>m_pos := i\<rparr>], i + 1, n_elems),
                    (ring, i, n_elems))
                   \<in> measure (\<lambda>(ring, i, n_elems). unat n_elems - unat i)"
    by simp
qed

declare init_loop.simps [simp del]

text \<open>
  The constructor. \<^verbatim>\<open>ut_a\<close> aborts the server when its condition is false: the
  result \<open>None\<close>. The condition is the source's:
  \<^verbatim>\<open>(n_elems >= 2) && ((n_elems & (n_elems - 1)) == 0)\<close>.
\<close>

definition mpmc_bq :: "(nat \<Rightarrow> 'a Cell) \<Rightarrow> size_t \<Rightarrow> 'a mpmc_bq option" where
  "mpmc_bq raw n_elems =
     (let ring = UT_NEW_ARRAY_NOKEY raw n_elems;
          capacity = n_elems - 1
      in if \<not> (n_elems \<ge> 2 \<and> n_elems AND (n_elems - 1) = 0) then None
         else Some \<lparr>m_ring = init_loop ring 0 n_elems,
                    m_capacity = capacity,
                    m_enqueue_pos = 0,
                    m_dequeue_pos = 0\<rparr>)"

subsection \<open>The primitives used by the loops\<close>

text \<open>
  \<^verbatim>\<open>(intptr_t)a - (intptr_t)b\<close>: both operands are read as signed 64-bit values
  and subtracted in \<^verbatim>\<open>intptr_t\<close>; the result is the two's-complement value of the
  wrapped difference. (Where the mathematical difference leaves the range of
  \<^verbatim>\<open>intptr_t\<close> the language leaves the result open; the model takes the wrap of
  the two's-complement machines the server is built for.)
\<close>

definition intptr_diff :: "size_t \<Rightarrow> size_t \<Rightarrow> int" where
  "intptr_diff a b = sint (word_of_int (sint a - sint b) :: 64 word)"

text \<open>
  \<^verbatim>\<open>atomic.compare_exchange_weak(expected, desired)\<close> on an atomic holding
  \<open>cur\<close>. The result is (success, new value of the atomic, new value of
  \<open>expected\<close>). A weak compare-exchange may fail although the values are equal
  (the source: ``Weak compare is faster, but can return spurious results''); whether this
  attempt does so is the argument \<open>spurious\<close>.
\<close>

definition compare_exchange_weak ::
  "bool \<Rightarrow> size_t \<Rightarrow> size_t \<Rightarrow> size_t \<Rightarrow> bool \<times> size_t \<times> size_t" where
  "compare_exchange_weak spurious cur expected desired =
     (if cur = expected \<and> \<not> spurious then (True, desired, expected)
      else (False, cur, cur))"

text \<open>How one pass through the body of a \<^verbatim>\<open>for (;;)\<close> loop ends.\<close>

datatype 'a loop_exit =
    Break size_t "'a mpmc_bq"   \<comment> \<open>\<^verbatim>\<open>break\<close>: the claimed \<open>pos\<close>, the queue after the CAS\<close>
  | Return_false               \<comment> \<open>\<^verbatim>\<open>return (false)\<close>\<close>
  | Continue size_t            \<comment> \<open>next iteration, with this \<open>pos\<close>\<close>

text \<open>
  \<^verbatim>\<open>&m_ring[pos & m_capacity]\<close>: the index of the cell. The source does not check
  it against the size of the ring; \<open>cell_index_less\<close> and \<open>ring_inv\<close> below show that
  it is inside the ring on every queue the constructor and the calls produce.
\<close>

definition cell_index :: "'a mpmc_bq \<Rightarrow> size_t \<Rightarrow> nat" where
  "cell_index q pos = unat (pos AND m_capacity q)"

subsection \<open>enqueue\<close>

text \<open>The body of the loop of \<^verbatim>\<open>enqueue\<close>, lines 83 to 119.\<close>

definition enqueue_iter :: "'a mpmc_bq \<Rightarrow> bool \<Rightarrow> size_t \<Rightarrow> 'a loop_exit" where
  "enqueue_iter q spurious pos =
     (let cell = m_ring q ! cell_index q pos;
          seq = m_pos cell;
          diff = intptr_diff seq pos
      in if diff = 0 then
           (case compare_exchange_weak spurious (m_enqueue_pos q) pos (pos + 1) of
              (True, cur, pos') \<Rightarrow> Break pos' (q\<lparr>m_enqueue_pos := cur\<rparr>)
            | (False, cur, pos') \<Rightarrow> Continue pos')
         else if diff < 0 then Return_false
         else Continue (m_enqueue_pos q))"

text \<open>
  After the loop: \<^verbatim>\<open>cell->m_data = data; cell->m_pos.store(pos + 1, release);\<close>
\<close>

definition enqueue_publish :: "'a mpmc_bq \<Rightarrow> size_t \<Rightarrow> 'a \<Rightarrow> 'a mpmc_bq" where
  "enqueue_publish q pos data =
     (let cell = m_ring q ! cell_index q pos
      in q\<lparr>m_ring := (m_ring q)[cell_index q pos :=
                         cell\<lparr>m_data := data, m_pos := pos + 1\<rparr>]\<rparr>)"

text \<open>
  The loop and what follows it. \<open>spur i\<close> tells whether the compare-exchange of
  iteration \<open>i\<close> of this call fails spuriously. The loop has no bound in the source,
  so the function is partial: \<open>None\<close> is a call that never returns.
\<close>

partial_function (option) enqueue_loop ::
  "'a mpmc_bq \<Rightarrow> (nat \<Rightarrow> bool) \<Rightarrow> 'a \<Rightarrow> size_t \<Rightarrow> (bool \<times> 'a mpmc_bq) option" where
  "enqueue_loop q spur data pos =
     (case enqueue_iter q (spur 0) pos of
        Break pos' q' \<Rightarrow> Some (True, enqueue_publish q' pos' data)
      | Return_false \<Rightarrow> Some (False, q)
      | Continue pos' \<Rightarrow> enqueue_loop q (\<lambda>i. spur (Suc i)) data pos')"

declare enqueue_loop.simps [code]

text \<open>\<^verbatim>\<open>bool enqueue(T const &data)\<close>: the returned flag and the queue afterwards.\<close>

definition enqueue :: "'a mpmc_bq \<Rightarrow> (nat \<Rightarrow> bool) \<Rightarrow> 'a \<Rightarrow> (bool \<times> 'a mpmc_bq) option" where
  "enqueue q spur data = enqueue_loop q spur data (m_enqueue_pos q)"

subsection \<open>dequeue\<close>

text \<open>The body of the loop of \<^verbatim>\<open>dequeue\<close>, lines 143 to 178.\<close>

definition dequeue_iter :: "'a mpmc_bq \<Rightarrow> bool \<Rightarrow> size_t \<Rightarrow> 'a loop_exit" where
  "dequeue_iter q spurious pos =
     (let cell = m_ring q ! cell_index q pos;
          seq = m_pos cell;
          diff = intptr_diff seq (pos + 1)
      in if diff = 0 then
           (case compare_exchange_weak spurious (m_dequeue_pos q) pos (pos + 1) of
              (True, cur, pos') \<Rightarrow> Break pos' (q\<lparr>m_dequeue_pos := cur\<rparr>)
            | (False, cur, pos') \<Rightarrow> Continue pos')
         else if diff < 0 then Return_false
         else Continue (m_dequeue_pos q))"

text \<open>
  After the loop: \<^verbatim>\<open>data = cell->m_data;
  cell->m_pos.store(pos + m_capacity + 1, release);\<close>
  The value read and the queue afterwards.
\<close>

definition dequeue_rearm :: "'a mpmc_bq \<Rightarrow> size_t \<Rightarrow> 'a \<times> 'a mpmc_bq" where
  "dequeue_rearm q pos =
     (let cell = m_ring q ! cell_index q pos
      in (m_data cell,
          q\<lparr>m_ring := (m_ring q)[cell_index q pos :=
                          cell\<lparr>m_pos := pos + m_capacity q + 1\<rparr>]\<rparr>))"

text \<open>
  \<^verbatim>\<open>bool dequeue(T &data)\<close>. The result \<open>Some v\<close> is the return value true with
  \<open>v\<close> written to \<open>data\<close>; \<open>None\<close> is the return value false, which leaves
  \<open>data\<close> alone.
\<close>

partial_function (option) dequeue_loop ::
  "'a mpmc_bq \<Rightarrow> (nat \<Rightarrow> bool) \<Rightarrow> size_t \<Rightarrow> ('a option \<times> 'a mpmc_bq) option" where
  "dequeue_loop q spur pos =
     (case dequeue_iter q (spur 0) pos of
        Break pos' q' \<Rightarrow> (case dequeue_rearm q' pos' of (v, q'') \<Rightarrow> Some (Some v, q''))
      | Return_false \<Rightarrow> Some (None, q)
      | Continue pos' \<Rightarrow> dequeue_loop q (\<lambda>i. spur (Suc i)) pos')"

declare dequeue_loop.simps [code]

definition dequeue :: "'a mpmc_bq \<Rightarrow> (nat \<Rightarrow> bool) \<Rightarrow> ('a option \<times> 'a mpmc_bq) option" where
  "dequeue q spur = dequeue_loop q spur (m_dequeue_pos q)"

subsection \<open>capacity and empty\<close>

definition capacity :: "'a mpmc_bq \<Rightarrow> size_t" where
  "capacity q = m_capacity q + 1"

text \<open>The loop of \<^verbatim>\<open>empty\<close>, lines 202 to 216; it attempts no compare-exchange.\<close>

partial_function (option) empty_loop :: "'a mpmc_bq \<Rightarrow> size_t \<Rightarrow> bool option" where
  "empty_loop q pos =
     (let cell = m_ring q ! cell_index q pos;
          seq = m_pos cell;
          diff = intptr_diff seq (pos + 1)
      in if diff = 0 then Some False
         else if diff < 0 then Some True
         else empty_loop q (m_dequeue_pos q))"

declare empty_loop.simps [code]

definition empty :: "'a mpmc_bq \<Rightarrow> bool option" where
  "empty q = empty_loop q (m_dequeue_pos q)"

subsection \<open>Sequential executions\<close>

text \<open>
  A caller's view of the class: the calls it makes and what they return. The calls run one
  after the other on the same queue. \<open>sch c i\<close> tells whether the compare-exchange of
  iteration \<open>i\<close> of call number \<open>c\<close> fails spuriously.
\<close>

datatype 'a call = Call_enqueue 'a | Call_dequeue | Call_empty

datatype 'a ret = Ret_enqueue bool | Ret_dequeue "'a option" | Ret_empty bool

fun exec_call :: "'a mpmc_bq \<Rightarrow> (nat \<Rightarrow> bool) \<Rightarrow> 'a call \<Rightarrow> ('a ret \<times> 'a mpmc_bq) option" where
  "exec_call q spur (Call_enqueue data) =
     (case enqueue q spur data of None \<Rightarrow> None | Some (b, q') \<Rightarrow> Some (Ret_enqueue b, q'))"
| "exec_call q spur Call_dequeue =
     (case dequeue q spur of None \<Rightarrow> None | Some (r, q') \<Rightarrow> Some (Ret_dequeue r, q'))"
| "exec_call q spur Call_empty =
     (case empty q of None \<Rightarrow> None | Some b \<Rightarrow> Some (Ret_empty b, q))"

fun run :: "'a mpmc_bq \<Rightarrow> (nat \<Rightarrow> nat \<Rightarrow> bool) \<Rightarrow> 'a call list \<Rightarrow> ('a ret list \<times> 'a mpmc_bq) option" where
  "run q sch [] = Some ([], q)"
| "run q sch (c # cs) =
     (case exec_call q (sch 0) c of
        None \<Rightarrow> None
      | Some (r, q') \<Rightarrow>
          (case run q' (\<lambda>n. sch (Suc n)) cs of
             None \<Rightarrow> None
           | Some (rs, q'') \<Rightarrow> Some (r # rs, q'')))"

text \<open>The values accepted by the enqueue calls that returned true, in call order.\<close>

fun enqueued :: "'a call list \<Rightarrow> 'a ret list \<Rightarrow> 'a list" where
  "enqueued (Call_enqueue v # cs) (Ret_enqueue True # rs) = v # enqueued cs rs"
| "enqueued (c # cs) (r # rs) = enqueued cs rs"
| "enqueued _ _ = []"

text \<open>The values handed out by the dequeue calls that returned true, in call order.\<close>

fun dequeued :: "'a ret list \<Rightarrow> 'a list" where
  "dequeued (Ret_dequeue (Some v) # rs) = v # dequeued rs"
| "dequeued (r # rs) = dequeued rs"
| "dequeued [] = []"

text \<open>A compare-exchange that does not fail spuriously for ever.\<close>

definition eventually_succeeds :: "(nat \<Rightarrow> bool) \<Rightarrow> bool" where
  "eventually_succeeds spur \<longleftrightarrow> (\<exists>i. \<not> spur i)"

text \<open>
  What a call computes in its first iteration: the difference \<open>diff\<close> at the cursor
  it has just loaded.
\<close>

definition enqueue_diff :: "'a mpmc_bq \<Rightarrow> int" where
  "enqueue_diff q =
     intptr_diff (m_pos (m_ring q ! cell_index q (m_enqueue_pos q))) (m_enqueue_pos q)"

definition dequeue_diff :: "'a mpmc_bq \<Rightarrow> int" where
  "dequeue_diff q =
     intptr_diff (m_pos (m_ring q ! cell_index q (m_dequeue_pos q))) (m_dequeue_pos q + 1)"

subsection \<open>The queue a ring stands for\<close>

text \<open>
  The number of tickets handed out to producers and not yet to consumers, and the payloads
  stored under these tickets, oldest first.
\<close>

definition pending :: "'a mpmc_bq \<Rightarrow> nat" where
  "pending q = unat (m_enqueue_pos q - m_dequeue_pos q)"

definition contents :: "'a mpmc_bq \<Rightarrow> 'a list" where
  "contents q =
     map (\<lambda>j. m_data (m_ring q ! cell_index q (m_dequeue_pos q + of_nat j))) [0..<pending q]"

text \<open>
  The states the calls keep the queue in: the mask is \<open>2 ^ k - 1\<close>, the ring has
  \<open>2 ^ k\<close> cells, at most that many tickets are pending, and the cell of ticket
  \<open>m_dequeue_pos + j\<close> carries that ticket plus one when the ticket is pending
  (published, not yet consumed) and the ticket itself otherwise (armed for its producer).
\<close>

definition ring_inv :: "'a mpmc_bq \<Rightarrow> bool" where
  "ring_inv q \<longleftrightarrow>
     (\<exists>k\<in>{1..<64}. m_capacity q = mask k \<and> length (m_ring q) = 2 ^ k) \<and>
     pending q \<le> length (m_ring q) \<and>
     (\<forall>j < length (m_ring q).
        m_pos (m_ring q ! cell_index q (m_dequeue_pos q + of_nat j)) =
          m_dequeue_pos q + of_nat j + (if j < pending q then 1 else 0))"

subsection \<open>The bounded FIFO the calls are measured against\<close>

text \<open>
  The reference the ring is compared with, written from the contract and not from the
  code: a list of at most \<open>N\<close> values, oldest first. \<open>enqueue\<close> appends unless the
  list is full, \<open>dequeue\<close> removes the head unless the list is empty, \<open>empty\<close>
  tells whether the list is empty.
\<close>

fun fifo_call :: "nat \<Rightarrow> 'a list \<Rightarrow> 'a call \<Rightarrow> 'a ret \<times> 'a list" where
  "fifo_call N xs (Call_enqueue v) =
     (if length xs < N then (Ret_enqueue True, xs @ [v]) else (Ret_enqueue False, xs))"
| "fifo_call N xs Call_dequeue =
     (case xs of [] \<Rightarrow> (Ret_dequeue None, []) | x # xs' \<Rightarrow> (Ret_dequeue (Some x), xs'))"
| "fifo_call N xs Call_empty = (Ret_empty (xs = []), xs)"

fun fifo_run :: "nat \<Rightarrow> 'a list \<Rightarrow> 'a call list \<Rightarrow> 'a ret list \<times> 'a list" where
  "fifo_run N xs [] = ([], xs)"
| "fifo_run N xs (c # cs) =
     (case fifo_call N xs c of
        (r, xs') \<Rightarrow> (case fifo_run N xs' cs of (rs, xs'') \<Rightarrow> (r # rs, xs'')))"

section \<open>Properties\<close>

subsection \<open>Facts about 64-bit words\<close>

lemma unat_succ_less: "(i::64 word) < n \<Longrightarrow> unat (i + 1) = unat i + 1"
  by (metis (no_types, lifting) add.commute add_0 inc_i inc_le
        unat_plus_simple unsigned_0 unsigned_1 word_gt_0)

lemma pow2_nat: "0 < (n::nat) \<Longrightarrow> (n AND (n - 1) = 0) \<longleftrightarrow> (\<exists>k. n = 2 ^ k)"
proof (induction n rule: less_induct)
  case (less n)
  show ?case
  proof (cases "even n")
    case True
    then obtain m where m: "n = 2 * m" by (auto elim: evenE)
    with less.prems have mpos: "0 < m" by simp
    have n1: "n - 1 = 2 * (m - 1) + 1" using m mpos by simp
    have "(2 * m) AND (2 * (m - 1) + 1) = 2 * (m AND (m - 1))"
      by (subst and_rec) simp
    then have e: "n AND (n - 1) = 2 * (m AND (m - 1))"
      using m n1 by simp
    have ih: "(m AND (m - 1) = 0) \<longleftrightarrow> (\<exists>k. m = 2 ^ k)"
      using less.IH[of m] m mpos by simp
    have "(\<exists>k. n = 2 ^ k) \<longleftrightarrow> (\<exists>k. m = 2 ^ k)"
    proof
      assume "\<exists>k. n = 2 ^ k"
      then obtain k where k: "n = 2 ^ k" ..
      with True less.prems have "k \<noteq> 0" by (cases k) auto
      then obtain k' where "k = Suc k'" by (cases k) auto
      with k m have "m = 2 ^ k'" by simp
      then show "\<exists>k. m = 2 ^ k" ..
    next
      assume "\<exists>k. m = 2 ^ k"
      then obtain k where "m = 2 ^ k" ..
      then have "n = 2 ^ Suc k" using m by simp
      then show "\<exists>k. n = 2 ^ k" ..
    qed
    then show ?thesis using e ih by simp
  next
    case False
    then obtain m where m: "n = 2 * m + 1" by (auto elim: oddE)
    have e: "n AND (n - 1) = 2 * m"
      using m by (simp add: and_rec)
    have "(\<exists>k. n = 2 ^ k) \<longleftrightarrow> m = 0"
    proof
      assume "\<exists>k. n = 2 ^ k"
      then obtain k where k: "n = 2 ^ k" ..
      with False have "k = 0" by (cases k) auto
      with k m show "m = 0" by simp
    next
      assume "m = 0"
      then have "n = 2 ^ 0" using m by simp
      then show "\<exists>k. n = 2 ^ k" ..
    qed
    then show ?thesis using e by simp
  qed
qed

lemma pow2_word:
  fixes n :: "64 word"
  shows "(n \<ge> 2 \<and> n AND (n - 1) = 0) \<longleftrightarrow> (\<exists>k. unat n = 2 ^ k) \<and> n \<ge> 2"
proof (cases "n \<ge> 2")
  case False then show ?thesis by simp
next
  case True
  then have n2: "2 \<le> unat n" by (simp add: word_le_nat_alt)
  then have n0: "n \<noteq> 0" by auto
  have u1: "unat (n - 1) = unat n - 1"
    using n0 by (simp add: unat_minus_one)
  have "(n AND (n - 1) = 0) \<longleftrightarrow> (unat (n AND (n - 1)) = 0)"
    by (simp add: unat_eq_0)
  also have "\<dots> \<longleftrightarrow> (unat n AND (unat n - 1)) = 0"
    by (simp add: unsigned_and_eq u1)
  also have "\<dots> \<longleftrightarrow> (\<exists>k. unat n = 2 ^ k)"
    using pow2_nat[of "unat n"] n2 by simp
  finally show ?thesis using True by simp
qed

lemma pow2_word_mask:
  fixes n :: "64 word"
  assumes "n \<ge> 2" "n AND (n - 1) = 0"
  shows "\<exists>k\<in>{1..<64}. unat n = 2 ^ k \<and> n - 1 = mask k"
proof -
  from assms pow2_word[of n] obtain k where k: "unat n = 2 ^ k" by auto
  have "2 \<le> unat n" using assms(1) by (simp add: word_le_nat_alt)
  with k have k1: "1 \<le> k" by (cases k) auto
  have "unat n < 2 ^ 64" using unsigned_less[of n] by simp
  with k have k64: "k < 64" by (metis nat_power_less_imp_less numeral_2_eq_2 zero_less_Suc)
  have "n = of_nat (unat n)" by simp
  also have "\<dots> = 2 ^ k" by (simp only: k of_nat_power of_nat_numeral)
  finally have "n - 1 = mask k" by (simp add: mask_eq_exp_minus_1)
  with k k1 k64 show ?thesis by auto
qed

lemma unat_and_mask: "unat ((p::64 word) AND mask k) = unat p mod 2 ^ k"
proof -
  have "p AND mask k = take_bit k p" by (simp add: take_bit_eq_mask)
  then have "unat (p AND mask k) = take_bit k (unat p)"
    by (simp only: unsigned_take_bit_eq)
  then show ?thesis by (simp only: take_bit_eq_mod)
qed

lemma unat_add_mod:
  assumes "k \<le> 64"
  shows "unat ((p::64 word) + q) mod 2 ^ k = (unat p + unat q) mod 2 ^ k"
proof -
  have "(2::nat) ^ k dvd 2 ^ 64" using assms by (rule le_imp_power_dvd)
  moreover have "unat (p + q) = (unat p + unat q) mod 2 ^ 64"
    by (simp add: unat_word_ariths)
  ultimately show ?thesis
    by (simp only: mod_mod_cancel)
qed

lemma mod_inj_nat:
  fixes d :: nat
  assumes "(d + j) mod n = (d + j') mod n" "j < n" "j' < n"
  shows "j = j'"
proof -
  have aux: "a = b" if "(d + a) mod n = (d + b) mod n" "a \<le> b" "b < n" for a b
  proof -
    have "(d + b) mod n = (d + a) mod n" "d + a \<le> d + b"
      using that by simp_all
    then have "n dvd (d + b) - (d + a)"
      by (simp only: mod_eq_dvd_iff_nat)
    then have "n dvd b - a" by simp
    moreover have "b - a < n" using that by simp
    ultimately have "b - a = 0" by (meson dvd_imp_le not_less zero_less_iff_neq_zero)
    with that show ?thesis by simp
  qed
  show ?thesis
  proof (cases "j \<le> j'")
    case True with aux[of j j'] assms show ?thesis by simp
  next
    case False with aux[of j' j] assms show ?thesis by simp
  qed
qed

lemma sint_64: "sint (w::64 word) = (if uint w < 2 ^ 63 then uint w else uint w - 2 ^ 64)"
proof -
  have b: "0 \<le> uint w" "uint w < 2 ^ 64"
    using uint_lt2p[of w] by simp_all
  have "sint w = (uint w + 2 ^ 63) mod 2 ^ 64 - 2 ^ 63"
    by (simp add: sint_uint signed_take_bit_eq_take_bit_shift take_bit_eq_mod)
  also have "\<dots> = (if uint w < 2 ^ 63 then uint w else uint w - 2 ^ 64)"
  proof (cases "uint w < 2 ^ 63")
    case True
    then have "(uint w + 2 ^ 63) mod 2 ^ 64 = uint w + 2 ^ 63"
      using b by (simp add: mod_pos_pos_trivial)
    with True show ?thesis by simp
  next
    case False
    then have "(uint w + 2 ^ 63) mod 2 ^ 64 = uint w + 2 ^ 63 - 2 ^ 64"
      using b by (simp add: mod_pos_geq mod_pos_pos_trivial)
    with False show ?thesis by simp
  qed
  finally show ?thesis .
qed

lemma sint_neg_iff: "sint (w::64 word) < 0 \<longleftrightarrow> 2 ^ 63 \<le> unat w"
proof -
  have b: "0 \<le> uint w" "uint w < 2 ^ 64"
    using uint_lt2p[of w] by simp_all
  have "sint w < 0 \<longleftrightarrow> 2 ^ 63 \<le> uint w"
    using b by (simp add: sint_64)
  also have "\<dots> \<longleftrightarrow> 2 ^ 63 \<le> unat w"
  proof -
    have "(2 ^ 63 \<le> uint w) = (int (2 ^ 63) \<le> int (unat w))"
      by (simp only: uint_nat of_nat_power of_nat_numeral)
    then show ?thesis by (simp only: of_nat_le_iff)
  qed
  finally show ?thesis .
qed

lemma sint_zero_iff: "sint (w::64 word) = 0 \<longleftrightarrow> w = 0"
proof -
  have b: "0 \<le> uint w" "uint w < 2 ^ 64"
    using uint_lt2p[of w] by simp_all
  have "sint w = 0 \<longleftrightarrow> uint w = 0"
    using b by (simp add: sint_64)
  then show ?thesis by (simp add: uint_0_iff)
qed

lemma intptr_diff_sint: "intptr_diff a b = sint (a - b)"
  by (simp add: intptr_diff_def)

lemma intptr_diff_zero_iff: "intptr_diff a b = 0 \<longleftrightarrow> a = b"
  by (simp add: intptr_diff_sint sint_zero_iff)

subsection \<open>The constructor\<close>

lemma length_init_loop: "length (init_loop ring i n) = length ring"
proof (induction ring i n rule: init_loop.induct)
  case (1 ring i n)
  show ?case
  proof (cases "i < n")
    case True
    with "1" show ?thesis by (subst init_loop.simps) simp
  next
    case False
    then show ?thesis by (subst init_loop.simps) simp
  qed
qed

lemma nth_init_loop:
  "j < length ring \<Longrightarrow> length ring = unat n \<Longrightarrow>
   init_loop ring i n ! j = (if unat i \<le> j then (ring ! j)\<lparr>m_pos := of_nat j\<rparr> else ring ! j)"
proof (induction ring i n arbitrary: rule: init_loop.induct)
  case (1 ring i n)
  show ?case
  proof (cases "i < n")
    case True
    let ?ring' = "ring[unat i := (ring ! unat i)\<lparr>m_pos := i\<rparr>]"
    have s: "unat (i + 1) = unat i + 1" using True by (rule unat_succ_less)
    have ih: "init_loop ?ring' (i + 1) n ! j =
          (if unat (i + 1) \<le> j then (?ring' ! j)\<lparr>m_pos := of_nat j\<rparr> else ?ring' ! j)"
      using "1.IH"[OF True] "1.prems" by simp
    have eq: "init_loop ring i n = init_loop ?ring' (i + 1) n"
      using True by (subst init_loop.simps) simp
    show ?thesis
    proof (cases "j = unat i")
      case True
      then have "word_of_nat j = i" by simp
      with True show ?thesis
        using eq ih s "1.prems" by (simp add: nth_list_update)
    next
      case False
      then show ?thesis
        using eq ih s "1.prems" by (auto simp: nth_list_update)
    qed
  next
    case False
    then have "unat n \<le> unat i" by (simp add: word_le_nat_alt not_less)
    moreover have "init_loop ring i n = ring"
      using False by (subst init_loop.simps) simp
    ultimately show ?thesis using "1.prems" by simp
  qed
qed

lemma mpmc_bq_Some:
  assumes "mpmc_bq raw n = Some q"
  shows "n \<ge> 2" "n AND (n - 1) = 0"
    "q = \<lparr>m_ring = init_loop (UT_NEW_ARRAY_NOKEY raw n) 0 n, m_capacity = n - 1,
          m_enqueue_pos = 0, m_dequeue_pos = 0\<rparr>"
  using assms by (auto simp: mpmc_bq_def Let_def split: if_splits)

lemma mpmc_bq_fields:
  assumes "mpmc_bq raw n = Some q"
  shows "length (m_ring q) = unat n" "m_capacity q = n - 1"
    "m_enqueue_pos q = 0" "m_dequeue_pos q = 0"
    "\<And>i. i < unat n \<Longrightarrow> m_ring q ! i = (raw i)\<lparr>m_pos := of_nat i\<rparr>"
  using mpmc_bq_Some(3)[OF assms]
  by (simp_all add: length_init_loop nth_init_loop UT_NEW_ARRAY_NOKEY_def)

text \<open>
  C6. Construction fails (the \<^verbatim>\<open>ut_a\<close> assertion aborts) exactly when the
  capacity is not a power of two or is below 2: the capacities 0, 1, 3 and 6 are rejected,
  and every power of two from 2 on is accepted.
\<close>

theorem construction_fails_iff:
  "(mpmc_bq raw n_elems = None \<longleftrightarrow> \<not> (\<exists>k. unat n_elems = 2 ^ k) \<or> n_elems < 2) \<and>
   mpmc_bq raw 0 = None \<and> mpmc_bq raw 1 = None \<and> mpmc_bq raw 3 = None \<and>
   mpmc_bq raw 6 = None"
proof -
  have "mpmc_bq raw n_elems = None \<longleftrightarrow> \<not> (n_elems \<ge> 2 \<and> n_elems AND (n_elems - 1) = 0)"
    by (simp add: mpmc_bq_def Let_def)
  also have "\<dots> \<longleftrightarrow> \<not> (\<exists>k. unat n_elems = 2 ^ k) \<or> n_elems < 2"
    by (simp only: pow2_word) auto
  finally have "mpmc_bq raw n_elems = None \<longleftrightarrow> \<not> (\<exists>k. unat n_elems = 2 ^ k) \<or> n_elems < 2" .
  moreover have "mpmc_bq raw 0 = None" "mpmc_bq raw 1 = None" "mpmc_bq raw 3 = None"
    "mpmc_bq raw 6 = None"
    by (simp_all add: mpmc_bq_def word_le_nat_alt)
  ultimately show ?thesis by simp
qed

theorem construction_fails_iff_witness:
  "mpmc_bq (\<lambda>i. \<lparr>m_pos = 0, m_data = ()\<rparr>) 8 \<noteq> None \<and> (\<exists>k. unat (8 :: 64 word) = 2 ^ k) \<and>
   \<not> (8 :: 64 word) < 2"
proof -
  have p: "\<exists>k. unat (8 :: 64 word) = 2 ^ k"
    by (rule exI[of _ 3]) simp
  have l: "\<not> (8 :: 64 word) < 2" by simp
  show ?thesis
    using construction_fails_iff[of "\<lambda>i. \<lparr>m_pos = 0, m_data = ()\<rparr>" 8] p l by blast
qed

text \<open>
  C7. After construction with a valid capacity and before any call, the cell at every ring
  index \<open>i\<close> has sequence number \<open>i\<close>, and both cursors are 0. (The ring has exactly
  \<open>n_elems\<close> cells, the mask is \<open>n_elems - 1\<close>, and the payloads are what the raw
  storage held.)
\<close>

theorem fresh_queue_state:
  assumes "mpmc_bq raw n_elems = Some q"
  shows "length (m_ring q) = unat n_elems \<and>
         (\<forall>i < unat n_elems. m_pos (m_ring q ! i) = of_nat i \<and>
                             m_data (m_ring q ! i) = m_data (raw i)) \<and>
         m_enqueue_pos q = 0 \<and> m_dequeue_pos q = 0 \<and> m_capacity q = n_elems - 1"
  using mpmc_bq_fields[OF assms] by simp

theorem fresh_queue_state_witness:
  "mpmc_bq (\<lambda>i. \<lparr>m_pos = 77, m_data = i\<rparr>) 4 =
     Some \<lparr>m_ring = [\<lparr>m_pos = 0, m_data = 0\<rparr>, \<lparr>m_pos = 1, m_data = 1\<rparr>,
                    \<lparr>m_pos = 2, m_data = 2\<rparr>, \<lparr>m_pos = 3, m_data = 3\<rparr>],
           m_capacity = 3, m_enqueue_pos = 0, m_dequeue_pos = 0\<rparr> \<and>
   length [\<lparr>m_pos = 0 :: 64 word, m_data = 0 :: nat\<rparr>, \<lparr>m_pos = 1, m_data = 1\<rparr>,
           \<lparr>m_pos = 2, m_data = 2\<rparr>, \<lparr>m_pos = 3, m_data = 3\<rparr>] = unat (4 :: 64 word)"
proof -
  have c: "mpmc_bq (\<lambda>i. \<lparr>m_pos = 77, m_data = i\<rparr>) 4 =
     Some \<lparr>m_ring = [\<lparr>m_pos = 0, m_data = 0\<rparr>, \<lparr>m_pos = 1, m_data = 1\<rparr>,
                    \<lparr>m_pos = 2, m_data = 2\<rparr>, \<lparr>m_pos = 3, m_data = 3\<rparr>],
           m_capacity = 3, m_enqueue_pos = 0, m_dequeue_pos = 0\<rparr>"
    by code_simp
  show ?thesis
    using fresh_queue_state[OF c] c by simp
qed

subsection \<open>What the loops compute\<close>

text \<open>
  A call starts its loop with the cursor it has just loaded. From there every pass either
  leaves the loop or continues with the same position, so the outcome is decided by the
  difference computed at the cursor and by the compare-exchange.
\<close>

lemma enqueue_iter_at_cursor:
  "enqueue_iter q s (m_enqueue_pos q) =
     (if enqueue_diff q = 0 then
        (if s then Continue (m_enqueue_pos q)
         else Break (m_enqueue_pos q) (q\<lparr>m_enqueue_pos := m_enqueue_pos q + 1\<rparr>))
      else if enqueue_diff q < 0 then Return_false
      else Continue (m_enqueue_pos q))"
  by (simp add: enqueue_iter_def enqueue_diff_def compare_exchange_weak_def Let_def)

lemma enqueue_loop_full:
  "enqueue_diff q < 0 \<Longrightarrow> enqueue_loop q spur data (m_enqueue_pos q) = Some (False, q)"
  by (subst enqueue_loop.simps) (simp add: enqueue_iter_at_cursor)

lemma enqueue_loop_claims:
  "enqueue_diff q = 0 \<Longrightarrow> \<not> spur k \<Longrightarrow>
   enqueue_loop q spur data (m_enqueue_pos q) =
     Some (True, enqueue_publish (q\<lparr>m_enqueue_pos := m_enqueue_pos q + 1\<rparr>) (m_enqueue_pos q) data)"
proof (induction k arbitrary: spur)
  case 0
  then show ?case
    by (subst enqueue_loop.simps) (simp add: enqueue_iter_at_cursor)
next
  case (Suc k)
  show ?case
  proof (cases "spur 0")
    case False
    with Suc.prems show ?thesis
      by (subst enqueue_loop.simps) (simp add: enqueue_iter_at_cursor)
  next
    case True
    have "enqueue_loop q spur data (m_enqueue_pos q) =
          enqueue_loop q (\<lambda>i. spur (Suc i)) data (m_enqueue_pos q)"
      using True Suc.prems(1) by (subst enqueue_loop.simps) (simp add: enqueue_iter_at_cursor)
    with Suc.IH[of "\<lambda>i. spur (Suc i)"] Suc.prems show ?thesis by simp
  qed
qed

lemma enqueue_loop_Some:
  assumes "enqueue_loop q spur data pos = Some y"
  shows "pos = m_enqueue_pos q \<longrightarrow>
         (enqueue_diff q < 0 \<and> y = (False, q)) \<or>
         (enqueue_diff q = 0 \<and> (\<exists>k. \<not> spur k) \<and>
          y = (True, enqueue_publish (q\<lparr>m_enqueue_pos := m_enqueue_pos q + 1\<rparr>)
                       (m_enqueue_pos q) data))"
proof (rule enqueue_loop.raw_induct[where P = "\<lambda>q spur data pos y.
         pos = m_enqueue_pos q \<longrightarrow>
         (enqueue_diff q < 0 \<and> y = (False, q)) \<or>
         (enqueue_diff q = 0 \<and> (\<exists>k. \<not> spur k) \<and>
          y = (True, enqueue_publish (q\<lparr>m_enqueue_pos := m_enqueue_pos q + 1\<rparr>)
                       (m_enqueue_pos q) data))", OF _ assms], goal_cases)
  case (1 loop q spur data pos y)
  show ?case
  proof
    assume pos: "pos = m_enqueue_pos q"
    consider (full) "enqueue_diff q < 0" | (zero) "enqueue_diff q = 0" "\<not> spur 0"
      | (spurious) "enqueue_diff q = 0" "spur 0" | (ahead) "enqueue_diff q > 0"
      by linarith
    then show "(enqueue_diff q < 0 \<and> y = (False, q)) \<or>
         (enqueue_diff q = 0 \<and> (\<exists>k. \<not> spur k) \<and>
          y = (True, enqueue_publish (q\<lparr>m_enqueue_pos := m_enqueue_pos q + 1\<rparr>)
                       (m_enqueue_pos q) data))"
    proof cases
      case full
      with 1(2) pos show ?thesis by (simp add: enqueue_iter_at_cursor)
    next
      case zero
      with 1(2) pos show ?thesis by (auto simp: enqueue_iter_at_cursor)
    next
      case spurious
      with 1(2) pos have "loop q (\<lambda>i. spur (Suc i)) data (m_enqueue_pos q) = Some y"
        by (simp add: enqueue_iter_at_cursor)
      from 1(1)[OF this] spurious show ?thesis by auto
    next
      case ahead
      with 1(2) pos have "loop q (\<lambda>i. spur (Suc i)) data (m_enqueue_pos q) = Some y"
        by (simp add: enqueue_iter_at_cursor)
      from 1(1)[OF this] ahead show ?thesis by auto
    qed
  qed
qed

lemma enqueue_eq:
  "enqueue q spur data =
     (if enqueue_diff q < 0 then Some (False, q)
      else if enqueue_diff q = 0 \<and> eventually_succeeds spur
      then Some (True, enqueue_publish (q\<lparr>m_enqueue_pos := m_enqueue_pos q + 1\<rparr>)
                         (m_enqueue_pos q) data)
      else None)"
proof (cases "enqueue q spur data")
  case None
  then show ?thesis
    using enqueue_loop_full[of q spur data] enqueue_loop_claims[of q spur _ data]
    by (auto simp: enqueue_def eventually_succeeds_def)
next
  case (Some y)
  then show ?thesis
    using enqueue_loop_Some[of q spur data "m_enqueue_pos q" y]
    by (auto simp: enqueue_def eventually_succeeds_def)
qed

lemma dequeue_iter_at_cursor:
  "dequeue_iter q s (m_dequeue_pos q) =
     (if dequeue_diff q = 0 then
        (if s then Continue (m_dequeue_pos q)
         else Break (m_dequeue_pos q) (q\<lparr>m_dequeue_pos := m_dequeue_pos q + 1\<rparr>))
      else if dequeue_diff q < 0 then Return_false
      else Continue (m_dequeue_pos q))"
  by (simp add: dequeue_iter_def dequeue_diff_def compare_exchange_weak_def Let_def)

lemma dequeue_loop_empty:
  "dequeue_diff q < 0 \<Longrightarrow> dequeue_loop q spur (m_dequeue_pos q) = Some (None, q)"
  by (subst dequeue_loop.simps) (simp add: dequeue_iter_at_cursor)

lemma dequeue_loop_claims:
  "dequeue_diff q = 0 \<Longrightarrow> \<not> spur k \<Longrightarrow>
   dequeue_loop q spur (m_dequeue_pos q) =
     Some (Some (fst (dequeue_rearm (q\<lparr>m_dequeue_pos := m_dequeue_pos q + 1\<rparr>)
                       (m_dequeue_pos q))),
           snd (dequeue_rearm (q\<lparr>m_dequeue_pos := m_dequeue_pos q + 1\<rparr>)
                  (m_dequeue_pos q)))"
proof (induction k arbitrary: spur)
  case 0
  then show ?case
    by (subst dequeue_loop.simps) (simp add: dequeue_iter_at_cursor split: prod.splits)
next
  case (Suc k)
  show ?case
  proof (cases "spur 0")
    case False
    with Suc.prems show ?thesis
      by (subst dequeue_loop.simps) (simp add: dequeue_iter_at_cursor split: prod.splits)
  next
    case True
    have "dequeue_loop q spur (m_dequeue_pos q) =
          dequeue_loop q (\<lambda>i. spur (Suc i)) (m_dequeue_pos q)"
      using True Suc.prems(1) by (subst dequeue_loop.simps) (simp add: dequeue_iter_at_cursor)
    with Suc.IH[of "\<lambda>i. spur (Suc i)"] Suc.prems show ?thesis by simp
  qed
qed

lemma dequeue_loop_Some:
  assumes "dequeue_loop q spur pos = Some y"
  shows "pos = m_dequeue_pos q \<longrightarrow>
         (dequeue_diff q < 0 \<and> y = (None, q)) \<or>
         (dequeue_diff q = 0 \<and> (\<exists>k. \<not> spur k) \<and>
          y = (Some (fst (dequeue_rearm (q\<lparr>m_dequeue_pos := m_dequeue_pos q + 1\<rparr>)
                            (m_dequeue_pos q))),
               snd (dequeue_rearm (q\<lparr>m_dequeue_pos := m_dequeue_pos q + 1\<rparr>)
                      (m_dequeue_pos q))))"
proof (rule dequeue_loop.raw_induct[where P = "\<lambda>q spur pos y.
         pos = m_dequeue_pos q \<longrightarrow>
         (dequeue_diff q < 0 \<and> y = (None, q)) \<or>
         (dequeue_diff q = 0 \<and> (\<exists>k. \<not> spur k) \<and>
          y = (Some (fst (dequeue_rearm (q\<lparr>m_dequeue_pos := m_dequeue_pos q + 1\<rparr>)
                            (m_dequeue_pos q))),
               snd (dequeue_rearm (q\<lparr>m_dequeue_pos := m_dequeue_pos q + 1\<rparr>)
                      (m_dequeue_pos q))))",
       OF _ assms], goal_cases)
  case (1 loop q spur pos y)
  show ?case
  proof
    assume pos: "pos = m_dequeue_pos q"
    consider (empty) "dequeue_diff q < 0" | (zero) "dequeue_diff q = 0" "\<not> spur 0"
      | (spurious) "dequeue_diff q = 0" "spur 0" | (ahead) "dequeue_diff q > 0"
      by linarith
    then show "(dequeue_diff q < 0 \<and> y = (None, q)) \<or>
         (dequeue_diff q = 0 \<and> (\<exists>k. \<not> spur k) \<and>
          y = (Some (fst (dequeue_rearm (q\<lparr>m_dequeue_pos := m_dequeue_pos q + 1\<rparr>)
                            (m_dequeue_pos q))),
               snd (dequeue_rearm (q\<lparr>m_dequeue_pos := m_dequeue_pos q + 1\<rparr>)
                      (m_dequeue_pos q))))"
    proof cases
      case empty
      with 1(2) pos show ?thesis by (simp add: dequeue_iter_at_cursor)
    next
      case zero
      with 1(2) pos show ?thesis
        by (auto simp: dequeue_iter_at_cursor split: prod.splits)
    next
      case spurious
      with 1(2) pos have "loop q (\<lambda>i. spur (Suc i)) (m_dequeue_pos q) = Some y"
        by (simp add: dequeue_iter_at_cursor)
      from 1(1)[OF this] spurious show ?thesis by auto
    next
      case ahead
      with 1(2) pos have "loop q (\<lambda>i. spur (Suc i)) (m_dequeue_pos q) = Some y"
        by (simp add: dequeue_iter_at_cursor)
      from 1(1)[OF this] ahead show ?thesis by auto
    qed
  qed
qed

lemma dequeue_eq:
  "dequeue q spur =
     (if dequeue_diff q < 0 then Some (None, q)
      else if dequeue_diff q = 0 \<and> eventually_succeeds spur
      then Some (Some (fst (dequeue_rearm (q\<lparr>m_dequeue_pos := m_dequeue_pos q + 1\<rparr>)
                             (m_dequeue_pos q))),
                 snd (dequeue_rearm (q\<lparr>m_dequeue_pos := m_dequeue_pos q + 1\<rparr>)
                        (m_dequeue_pos q)))
      else None)"
proof (cases "dequeue q spur")
  case None
  then show ?thesis
    using dequeue_loop_empty[of q spur] dequeue_loop_claims[of q spur]
    by (auto simp: dequeue_def eventually_succeeds_def)
next
  case (Some y)
  then show ?thesis
    using dequeue_loop_Some[of q spur "m_dequeue_pos q" y]
    by (auto simp: dequeue_def eventually_succeeds_def)
qed

lemma empty_loop_Some:
  assumes "empty_loop q pos = Some y"
  shows "pos = m_dequeue_pos q \<longrightarrow> dequeue_diff q \<le> 0 \<and> y = (dequeue_diff q < 0)"
proof (rule empty_loop.raw_induct[where P = "\<lambda>q pos y.
         pos = m_dequeue_pos q \<longrightarrow> dequeue_diff q \<le> 0 \<and> y = (dequeue_diff q < 0)",
       OF _ assms], goal_cases)
  case (1 loop q pos y)
  show ?case
  proof
    assume pos: "pos = m_dequeue_pos q"
    show "dequeue_diff q \<le> 0 \<and> y = (dequeue_diff q < 0)"
    proof (cases "dequeue_diff q \<le> 0")
      case True
      with 1(2) pos show ?thesis
        by (auto simp: dequeue_diff_def Let_def split: if_splits)
    next
      case False
      with 1(2) pos have "loop q (m_dequeue_pos q) = Some y"
        by (auto simp: dequeue_diff_def Let_def split: if_splits)
      from 1(1)[OF this] False show ?thesis by simp
    qed
  qed
qed

lemma empty_eq:
  "empty q =
     (if dequeue_diff q = 0 then Some False
      else if dequeue_diff q < 0 then Some True
      else None)"
proof (cases "empty q")
  case None
  have "dequeue_diff q \<le> 0 \<Longrightarrow> empty q = Some (dequeue_diff q < 0)"
    unfolding empty_def
    by (subst empty_loop.simps) (auto simp: dequeue_diff_def Let_def)
  with None show ?thesis by auto
next
  case (Some y)
  then show ?thesis
    using empty_loop_Some[of q "m_dequeue_pos q" y]
    by (auto simp: empty_def)
qed

subsection \<open>Ring indices and differences\<close>

lemma cell_index_mod: "m_capacity q = mask k \<Longrightarrow> cell_index q p = unat p mod 2 ^ k"
  by (simp add: cell_index_def unat_and_mask)

lemma cell_index_less: "m_capacity q = mask k \<Longrightarrow> cell_index q p < 2 ^ k"
  by (simp add: cell_index_mod)

lemma unat_of_nat_small: "j < 2 ^ k \<Longrightarrow> k \<le> 64 \<Longrightarrow> unat (of_nat j :: 64 word) = j"
proof -
  assume "j < 2 ^ k" "k \<le> 64"
  then have "j < 2 ^ 64"
    by (meson less_le_trans one_le_numeral power_increasing)
  then show ?thesis by (simp add: of_nat_inverse)
qed

lemma unat_pow2: "k < 64 \<Longrightarrow> unat (2 ^ k :: 64 word) = 2 ^ k"
proof -
  assume "k < 64"
  then have "(2::nat) ^ k < 2 ^ 64" by (intro power_strict_increasing) simp_all
  moreover have "(of_nat (2 ^ k) :: 64 word) = 2 ^ k" by simp
  ultimately show ?thesis by (simp add: of_nat_inverse)
qed

lemma cell_index_offset:
  assumes "m_capacity q = mask k" "k \<le> 64" "j < 2 ^ k"
  shows "cell_index q (d + of_nat j) = (unat d + j) mod 2 ^ k"
  using assms by (simp add: cell_index_mod unat_add_mod unat_of_nat_small)

lemma cell_index_inj:
  assumes "m_capacity q = mask k" "k \<le> 64" "j < 2 ^ k" "j' < 2 ^ k"
    and "cell_index q (d + of_nat j) = cell_index q (d + of_nat j')"
  shows "j = j'"
  using assms mod_inj_nat[of "unat d" j "2 ^ k" j'] by (simp add: cell_index_offset)

lemma cell_index_wrap:
  assumes "m_capacity q = mask k" "k < 64"
  shows "cell_index q (d + 2 ^ k) = cell_index q d"
proof -
  have "unat (2 ^ k :: 64 word) = 2 ^ k"
    using assms(2) by (rule unat_pow2)
  then show ?thesis
    using assms by (simp add: cell_index_mod unat_add_mod)
qed

lemma sint_one_minus_pow: 
  assumes "1 \<le> k" "k < 64"
  shows "sint (1 - 2 ^ k :: 64 word) < 0"
proof -
  define x :: nat where "x = 2 ^ 64 - 2 ^ k + 1"
  have "(2::nat) ^ k \<le> 2 ^ 63"
    using assms by (intro power_increasing) simp_all
  moreover have "(2::nat) ^ 1 \<le> 2 ^ k"
    using assms by (intro power_increasing) simp_all
  ultimately have x: "x < 2 ^ 64" "2 ^ 63 \<le> x" "x + 2 ^ k = 2 ^ 64 + 1"
    by (simp_all add: x_def)
  have "(of_nat x :: 64 word) + 2 ^ k = of_nat (x + 2 ^ k)" by simp
  also have "\<dots> = 1" by (simp only: x(3)) simp
  finally have "(of_nat x :: 64 word) = 1 - 2 ^ k" by (simp add: eq_diff_eq)
  then have "unat (1 - 2 ^ k :: 64 word) = x"
    using x(1) by (simp add: of_nat_inverse)
  with x(2) show ?thesis by (simp only: sint_neg_iff)
qed

lemma intptr_diff_behind:
  assumes "1 \<le> k" "k < 64"
  shows "intptr_diff (d + 1) (d + 2 ^ k) < 0"
  using sint_one_minus_pow[OF assms] by (simp add: intptr_diff_sint)

lemma intptr_diff_pred: "intptr_diff d (d + 1) < 0"
  by (simp add: intptr_diff_sint)

lemma intptr_diff_self: "intptr_diff d d = 0"
  by (simp add: intptr_diff_sint)

subsection \<open>The ring invariant\<close>

lemma ring_invE:
  assumes "ring_inv q"
  obtains k where "1 \<le> k" "k < 64" "m_capacity q = mask k" "length (m_ring q) = 2 ^ k"
    "pending q \<le> 2 ^ k"
    "\<forall>j < 2 ^ k.
       m_pos (m_ring q ! cell_index q (m_dequeue_pos q + of_nat j)) =
         m_dequeue_pos q + of_nat j + (if j < pending q then 1 else 0)"
  using assms unfolding ring_inv_def by auto

lemma ring_invI:
  assumes "1 \<le> k" "k < 64" "m_capacity q = mask k" "length (m_ring q) = 2 ^ k"
    "pending q \<le> 2 ^ k"
    "\<And>j. j < 2 ^ k \<Longrightarrow>
       m_pos (m_ring q ! cell_index q (m_dequeue_pos q + of_nat j)) =
         m_dequeue_pos q + of_nat j + (if j < pending q then 1 else 0)"
  shows "ring_inv q"
  using assms unfolding ring_inv_def by auto

lemma enqueue_pos_pending: "m_enqueue_pos q = m_dequeue_pos q + of_nat (pending q)"
  by (simp add: pending_def)

lemma enqueue_diff_inv:
  assumes "ring_inv q"
  shows "enqueue_diff q = 0 \<longleftrightarrow> pending q < length (m_ring q)"
    and "enqueue_diff q \<le> 0"
proof -
  from assms obtain k where k: "1 \<le> k" "k < 64" "m_capacity q = mask k"
    "length (m_ring q) = 2 ^ k" "pending q \<le> 2 ^ k"
    and all_cells: "\<forall>j < 2 ^ k.
       m_pos (m_ring q ! cell_index q (m_dequeue_pos q + of_nat j)) =
         m_dequeue_pos q + of_nat j + (if j < pending q then 1 else 0)"
    by (rule ring_invE)
  note cells = all_cells[rule_format]
  show "enqueue_diff q = 0 \<longleftrightarrow> pending q < length (m_ring q)"
   and "enqueue_diff q \<le> 0"
  proof (atomize (full), cases "pending q < 2 ^ k")
    case True
    from cells[OF True] have "enqueue_diff q = 0"
      by (simp add: enqueue_diff_def intptr_diff_zero_iff flip: enqueue_pos_pending)
    with True k show "(enqueue_diff q = 0 \<longleftrightarrow> pending q < length (m_ring q)) \<and> enqueue_diff q \<le> 0" by simp
  next
    case False
    with k have full: "pending q = 2 ^ k" by simp
    then have e: "m_enqueue_pos q = m_dequeue_pos q + 2 ^ k"
      using enqueue_pos_pending[of q] by simp
    have "cell_index q (m_enqueue_pos q) = cell_index q (m_dequeue_pos q + of_nat 0)"
      using cell_index_wrap[OF k(3) k(2)] e by simp
    moreover have "m_pos (m_ring q ! cell_index q (m_dequeue_pos q + of_nat 0)) = m_dequeue_pos q + 1"
      using cells[of 0] full by simp
    ultimately have "enqueue_diff q = intptr_diff (m_dequeue_pos q + 1) (m_dequeue_pos q + 2 ^ k)"
      using e by (simp add: enqueue_diff_def)
    then have "enqueue_diff q < 0"
      using intptr_diff_behind[OF k(1) k(2)] by simp
    with full k show "(enqueue_diff q = 0 \<longleftrightarrow> pending q < length (m_ring q)) \<and> enqueue_diff q \<le> 0" by simp
  qed
qed

lemma dequeue_diff_inv:
  assumes "ring_inv q"
  shows "dequeue_diff q = 0 \<longleftrightarrow> 0 < pending q"
    and "dequeue_diff q \<le> 0"
proof -
  from assms obtain k where k: "1 \<le> k" "k < 64" "m_capacity q = mask k"
    "length (m_ring q) = 2 ^ k" "pending q \<le> 2 ^ k"
    and all_cells: "\<forall>j < 2 ^ k.
       m_pos (m_ring q ! cell_index q (m_dequeue_pos q + of_nat j)) =
         m_dequeue_pos q + of_nat j + (if j < pending q then 1 else 0)"
    by (rule ring_invE)
  note cells = all_cells[rule_format]
  have "m_pos (m_ring q ! cell_index q (m_dequeue_pos q)) =
          m_dequeue_pos q + (if 0 < pending q then 1 else 0)"
    using cells[of 0] by simp
  then have "dequeue_diff q = (if 0 < pending q then 0 else intptr_diff (m_dequeue_pos q) (m_dequeue_pos q + 1))"
    by (simp add: dequeue_diff_def intptr_diff_self)
  then show "dequeue_diff q = 0 \<longleftrightarrow> 0 < pending q" and "dequeue_diff q \<le> 0"
    using intptr_diff_pred[of "m_dequeue_pos q"] by (simp_all split: if_splits)
qed

lemma unat_of_nat_64: "j < 2 ^ 64 \<Longrightarrow> unat (of_nat j :: 64 word) = j"
  by (simp add: of_nat_inverse)

lemma pow2_less_64: "k < 64 \<Longrightarrow> (2::nat) ^ k < 2 ^ 64"
  by (intro power_strict_increasing) simp_all

lemma enqueue_commit_inv:
  fixes q :: "'a mpmc_bq" and v :: 'a
  assumes inv: "ring_inv q" and room: "pending q < length (m_ring q)"
  defines "q' \<equiv> enqueue_publish (q\<lparr>m_enqueue_pos := m_enqueue_pos q + 1\<rparr>) (m_enqueue_pos q) v"
  shows "ring_inv q'" and "pending q' = Suc (pending q)" and "contents q' = contents q @ [v]"
    and "length (m_ring q') = length (m_ring q)"
proof -
  from inv obtain k where k: "1 \<le> k" "k < 64" "m_capacity q = mask k"
    "length (m_ring q) = 2 ^ k" "pending q \<le> 2 ^ k"
    and all_cells: "\<forall>j < 2 ^ k.
       m_pos (m_ring q ! cell_index q (m_dequeue_pos q + of_nat j)) =
         m_dequeue_pos q + of_nat j + (if j < pending q then 1 else 0)"
    by (rule ring_invE)
  note cells = all_cells[rule_format]
  let ?d = "m_dequeue_pos q" and ?e = "m_enqueue_pos q"
  let ?i = "cell_index q ?e"
  let ?c = "(m_ring q ! ?i)\<lparr>m_data := v, m_pos := ?e + 1\<rparr>"
  have e: "?e = ?d + of_nat (pending q)" by (rule enqueue_pos_pending)
  have room': "pending q < 2 ^ k" using room k by simp
  have flds: "m_capacity q' = m_capacity q" "m_dequeue_pos q' = ?d" "m_enqueue_pos q' = ?e + 1"
    "m_ring q' = (m_ring q)[?i := ?c]"
    by (simp_all add: q'_def enqueue_publish_def cell_index_def Let_def)
  have idx: "cell_index q' p = cell_index q p" for p
    by (simp add: cell_index_def flds)
  have i_lt: "?i < length (m_ring q)"
    using cell_index_less[OF k(3)] k(4) by simp
  show len: "length (m_ring q') = length (m_ring q)" by (simp add: flds)
  have "Suc (pending q) < 2 ^ 64"
    using room' pow2_less_64[OF k(2)] by simp
  then have "unat (of_nat (Suc (pending q)) :: 64 word) = Suc (pending q)"
    by (rule unat_of_nat_64)
  moreover have "m_enqueue_pos q' - m_dequeue_pos q' = of_nat (Suc (pending q))"
    using e by (simp add: flds)
  ultimately show p': "pending q' = Suc (pending q)"
    by (simp add: pending_def[of q'])
  have cell_new: "m_ring q' ! cell_index q (?d + of_nat j) =
      (if j = pending q then ?c else m_ring q ! cell_index q (?d + of_nat j))"
    if "j < 2 ^ k" for j
  proof (cases "j = pending q")
    case True
    then show ?thesis using i_lt e by (simp add: flds)
  next
    case False
    have "cell_index q (?d + of_nat j) \<noteq> ?i"
    proof
      assume "cell_index q (?d + of_nat j) = ?i"
      then have "cell_index q (?d + of_nat j) = cell_index q (?d + of_nat (pending q))"
        using e by simp
      from cell_index_inj[OF k(3) _ that room' this] k(2) False show False by simp
    qed
    with False show ?thesis by (simp add: flds)
  qed
  show "ring_inv q'"
  proof (rule ring_invI[of k])
    show "1 \<le> k" "k < 64" by fact+
    show "m_capacity q' = mask k" using k by (simp add: flds)
    show "length (m_ring q') = 2 ^ k" using k len by simp
    show "pending q' \<le> 2 ^ k" using p' room' by simp
  next
    fix j :: nat
    assume j: "j < 2 ^ k"
    show "m_pos (m_ring q' ! cell_index q' (m_dequeue_pos q' + of_nat j)) =
            m_dequeue_pos q' + of_nat j + (if j < pending q' then 1 else 0)"
      using cell_new[OF j] cells[OF j] e
      by (auto simp: idx flds(2) p')
  qed
  have "contents q' = map (\<lambda>j. m_data (m_ring q' ! cell_index q (?d + of_nat j))) [0..<pending q]
                       @ [m_data (m_ring q' ! cell_index q (?d + of_nat (pending q)))]"
    by (simp add: contents_def p' idx flds(2))
  also have "map (\<lambda>j. m_data (m_ring q' ! cell_index q (?d + of_nat j))) [0..<pending q]
               = contents q"
    unfolding contents_def
    using cell_new room' by (intro map_cong) auto
  also have "m_data (m_ring q' ! cell_index q (?d + of_nat (pending q))) = v"
    using cell_new[OF room'] by simp
  finally show "contents q' = contents q @ [v]" .
qed

lemma dequeue_commit_inv:
  fixes q :: "'a mpmc_bq"
  assumes inv: "ring_inv q" and some: "0 < pending q"
  defines "r \<equiv> dequeue_rearm (q\<lparr>m_dequeue_pos := m_dequeue_pos q + 1\<rparr>) (m_dequeue_pos q)"
  shows "ring_inv (snd r)" and "Suc (pending (snd r)) = pending q"
    and "contents q = fst r # contents (snd r)"
    and "length (m_ring (snd r)) = length (m_ring q)"
proof -
  from inv obtain k where k: "1 \<le> k" "k < 64" "m_capacity q = mask k"
    "length (m_ring q) = 2 ^ k" "pending q \<le> 2 ^ k"
    and all_cells: "\<forall>j < 2 ^ k.
       m_pos (m_ring q ! cell_index q (m_dequeue_pos q + of_nat j)) =
         m_dequeue_pos q + of_nat j + (if j < pending q then 1 else 0)"
    by (rule ring_invE)
  note cells = all_cells[rule_format]
  let ?d = "m_dequeue_pos q" and ?e = "m_enqueue_pos q"
  let ?i = "cell_index q ?d"
  let ?c = "(m_ring q ! ?i)\<lparr>m_pos := ?d + 2 ^ k\<rparr>"
  define q' where "q' = snd r"
  have rearm: "?d + m_capacity q + 1 = ?d + 2 ^ k"
    by (simp add: k(3) mask_eq_exp_minus_1)
  have "m_ring q' = (m_ring q)[?i := (m_ring q ! ?i)\<lparr>m_pos := ?d + m_capacity q + 1\<rparr>]"
    by (simp add: q'_def r_def dequeue_rearm_def cell_index_def Let_def)
  then have ring': "m_ring q' = (m_ring q)[?i := ?c]"
    by (simp only: rearm)
  have flds: "m_capacity q' = m_capacity q" "m_dequeue_pos q' = ?d + 1" "m_enqueue_pos q' = ?e"
    "m_ring q' = (m_ring q)[?i := ?c]" "fst r = m_data (m_ring q ! ?i)"
    using ring' by (simp_all add: q'_def r_def dequeue_rearm_def cell_index_def Let_def)
  have idx: "cell_index q' p = cell_index q p" for p
    by (simp add: cell_index_def flds)
  have i_lt: "?i < length (m_ring q)"
    using cell_index_less[OF k(3)] k(4) by simp
  have len: "length (m_ring q') = length (m_ring q)" by (simp add: flds)
  then show "length (m_ring (snd r)) = length (m_ring q)" by (simp add: q'_def)
  have nz: "?e - ?d \<noteq> 0"
    using some by (auto simp: pending_def)
  have "m_enqueue_pos q' - m_dequeue_pos q' = (?e - ?d) - 1"
    by (simp add: flds)
  then have "pending q' = pending q - 1"
    using unat_minus_one[OF nz] by (simp add: pending_def)
  with some have p': "Suc (pending q') = pending q" by simp
  then show "Suc (pending (snd r)) = pending q" by (simp add: q'_def)
  have data: "m_data (m_ring q' ! x) = m_data (m_ring q ! x)" for x
  proof (cases "x = ?i")
    case True
    then show ?thesis using i_lt by (simp add: flds)
  next
    case False
    then show ?thesis by (simp add: flds)
  qed
  have pos0: "0 < (2::nat) ^ k" by simp
  have cell_new: "m_pos (m_ring q' ! cell_index q (?d + 1 + of_nat j)) =
      ?d + 1 + of_nat j + (if j < pending q' then 1 else 0)"
    if j: "j < 2 ^ k" for j
  proof (cases "Suc j < 2 ^ k")
    case True
    have "cell_index q (?d + of_nat (Suc j)) \<noteq> ?i"
    proof
      assume "cell_index q (?d + of_nat (Suc j)) = ?i"
      then have "cell_index q (?d + of_nat (Suc j)) = cell_index q (?d + of_nat 0)"
        by simp
      from cell_index_inj[OF k(3) _ True pos0 this] k(2) show False by simp
    qed
    then have "m_ring q' ! cell_index q (?d + of_nat (Suc j)) =
               m_ring q ! cell_index q (?d + of_nat (Suc j))"
      by (simp add: flds)
    with cells[OF True] p' show ?thesis
      by (auto simp: algebra_simps)
  next
    case False
    with j have last: "Suc j = 2 ^ k" by simp
    then have "(of_nat (Suc j) :: 64 word) = 2 ^ k" by (simp only: of_nat_power of_nat_numeral)
    then have w: "?d + 1 + of_nat j = ?d + 2 ^ k" by (simp add: algebra_simps)
    have "cell_index q (?d + 1 + of_nat j) = ?i"
      by (simp only: w cell_index_wrap[OF k(3) k(2)])
    then have "m_pos (m_ring q' ! cell_index q (?d + 1 + of_nat j)) = ?d + 2 ^ k"
      using i_lt by (simp add: flds)
    then have "m_pos (m_ring q' ! cell_index q (?d + 1 + of_nat j)) = ?d + 1 + of_nat j"
      by (simp only: w)
    moreover have "\<not> j < pending q'"
      using p' last k(5) by simp
    ultimately show ?thesis by simp
  qed
  have "ring_inv q'"
  proof (rule ring_invI[of k])
    show "1 \<le> k" "k < 64" by fact+
    show "m_capacity q' = mask k" using k by (simp add: flds)
    show "length (m_ring q') = 2 ^ k" using k len by simp
    show "pending q' \<le> 2 ^ k" using p' k(5) by simp
  next
    fix j :: nat
    assume j: "j < 2 ^ k"
    show "m_pos (m_ring q' ! cell_index q' (m_dequeue_pos q' + of_nat j)) =
            m_dequeue_pos q' + of_nat j + (if j < pending q' then 1 else 0)"
      using cell_new[OF j] by (simp add: idx flds(2))
  qed
  then show "ring_inv (snd r)" by (simp add: q'_def)
  have "contents q = map (\<lambda>j. m_data (m_ring q ! cell_index q (?d + of_nat j))) [0..<Suc (pending q')]"
    by (simp only: contents_def p')
  also have "\<dots> = m_data (m_ring q ! cell_index q ?d) #
       map (\<lambda>j. m_data (m_ring q ! cell_index q (?d + of_nat (Suc j)))) [0..<pending q']"
    by (simp only: upt_conv_Cons[of 0] map_Suc_upt[symmetric] list.map map_map) (simp add: comp_def)
  also have "map (\<lambda>j. m_data (m_ring q ! cell_index q (?d + of_nat (Suc j)))) [0..<pending q']
      = contents q'"
    by (simp add: contents_def idx flds(2) data algebra_simps)
  finally show "contents q = fst r # contents (snd r)"
    by (simp add: flds(5) q'_def)
qed

lemma length_contents: "length (contents q) = pending q"
  by (simp add: contents_def)

lemma ring_inv_fresh:
  assumes "mpmc_bq raw n = Some q"
  shows "ring_inv q" and "pending q = 0" and "length (m_ring q) = unat n"
proof -
  note f = mpmc_bq_fields[OF assms]
  from mpmc_bq_Some(1,2)[OF assms] obtain k where k: "k \<in> {1..<64}" "unat n = 2 ^ k" "n - 1 = mask k"
    using pow2_word_mask by blast
  show p: "pending q = 0" by (simp add: pending_def f)
  show "length (m_ring q) = unat n" by (rule f)
  show "ring_inv q"
  proof (rule ring_invI[of k])
    show "1 \<le> k" "k < 64" using k(1) by simp_all
    show "m_capacity q = mask k" using f k by simp
    show "length (m_ring q) = 2 ^ k" using f k by simp
    show "pending q \<le> 2 ^ k" using p by simp
  next
    fix j :: nat
    assume j: "j < 2 ^ k"
    have "cell_index q (0 + of_nat j) = (unat (0 :: 64 word) + j) mod 2 ^ k"
      using k(1) j by (intro cell_index_offset) (simp_all add: f k(3))
    then have "cell_index q (of_nat j) = j" using j by simp
    then show "m_pos (m_ring q ! cell_index q (m_dequeue_pos q + of_nat j)) =
          m_dequeue_pos q + of_nat j + (if j < pending q then 1 else 0)"
      using f(5)[of j] j k(2) by (simp add: f(4) p)
  qed
qed

lemma enqueue_inv_eq:
  assumes "ring_inv q"
  shows "enqueue q spur v =
     (if pending q = length (m_ring q) then Some (False, q)
      else if eventually_succeeds spur
      then Some (True, enqueue_publish (q\<lparr>m_enqueue_pos := m_enqueue_pos q + 1\<rparr>)
                         (m_enqueue_pos q) v)
      else None)"
proof -
  have "pending q \<le> length (m_ring q)"
    using assms by (auto simp: ring_inv_def)
  then show ?thesis
    using enqueue_diff_inv[OF assms]
    by (cases "enqueue_diff q = 0") (auto simp: enqueue_eq)
qed

lemma dequeue_inv_eq:
  assumes "ring_inv q"
  shows "dequeue q spur =
     (if pending q = 0 then Some (None, q)
      else if eventually_succeeds spur
      then Some (Some (fst (dequeue_rearm (q\<lparr>m_dequeue_pos := m_dequeue_pos q + 1\<rparr>)
                             (m_dequeue_pos q))),
                 snd (dequeue_rearm (q\<lparr>m_dequeue_pos := m_dequeue_pos q + 1\<rparr>)
                        (m_dequeue_pos q)))
      else None)"
  using dequeue_diff_inv[OF assms]
  by (cases "dequeue_diff q = 0") (auto simp: dequeue_eq)

lemma empty_inv_eq:
  assumes "ring_inv q"
  shows "empty q = Some (pending q = 0)"
  using dequeue_diff_inv[OF assms]
  by (cases "dequeue_diff q = 0") (auto simp: empty_eq)

subsection \<open>The ring refines a bounded FIFO\<close>

text \<open>One call on a ring that satisfies the invariant does what the bounded FIFO does.\<close>

lemma exec_call_refines:
  assumes inv: "ring_inv q" and ex: "exec_call q spur c = Some (r, q')"
  shows "ring_inv q' \<and> length (m_ring q') = length (m_ring q) \<and>
    fifo_call (length (m_ring q)) (contents q) c = (r, contents q') \<and>
    m_enqueue_pos q' = m_enqueue_pos q + (if r = Ret_enqueue True then 1 else 0) \<and>
    m_dequeue_pos q' = m_dequeue_pos q + (if r \<in> range (Ret_dequeue \<circ> Some) then 1 else 0)"
proof (cases c)
  case (Call_enqueue v)
  let ?q' = "enqueue_publish (q\<lparr>m_enqueue_pos := m_enqueue_pos q + 1\<rparr>) (m_enqueue_pos q) v"
  show ?thesis
  proof (cases "pending q = length (m_ring q)")
    case True
    with ex Call_enqueue inv show ?thesis
      by (auto simp: enqueue_inv_eq length_contents)
  next
    case False
    then have room: "pending q < length (m_ring q)"
      using inv by (auto simp: ring_inv_def)
    from ex Call_enqueue False have r: "r = Ret_enqueue True" "q' = ?q'"
      by (auto simp: enqueue_inv_eq[OF inv] split: if_splits)
    have "m_enqueue_pos ?q' = m_enqueue_pos q + 1" "m_dequeue_pos ?q' = m_dequeue_pos q"
      by (simp_all add: enqueue_publish_def Let_def)
    with enqueue_commit_inv[OF inv room, of v] r room Call_enqueue show ?thesis
      by (auto simp: length_contents)
  qed
next
  case Call_dequeue
  let ?r = "dequeue_rearm (q\<lparr>m_dequeue_pos := m_dequeue_pos q + 1\<rparr>) (m_dequeue_pos q)"
  show ?thesis
  proof (cases "pending q = 0")
    case True
    then have "contents q = []" by (simp add: contents_def)
    with True ex Call_dequeue inv show ?thesis
      by (auto simp: dequeue_inv_eq)
  next
    case False
    then have some: "0 < pending q" by simp
    from ex Call_dequeue False have r: "r = Ret_dequeue (Some (fst ?r))" "q' = snd ?r"
      by (auto simp: dequeue_inv_eq[OF inv] split: if_splits prod.splits)
    have "m_enqueue_pos (snd ?r) = m_enqueue_pos q" "m_dequeue_pos (snd ?r) = m_dequeue_pos q + 1"
      by (simp_all add: dequeue_rearm_def Let_def)
    with dequeue_commit_inv[OF inv some] r Call_dequeue show ?thesis
      by auto
  qed
next
  case Call_empty
  with ex inv show ?thesis
    by (auto simp: empty_inv_eq contents_def)
qed

lemma exec_call_returns:
  assumes "ring_inv q" "eventually_succeeds spur"
  shows "\<exists>r q'. exec_call q spur c = Some (r, q')"
  using assms
  by (cases c) (auto simp: enqueue_inv_eq dequeue_inv_eq empty_inv_eq)

lemma exec_call_None_iff:
  assumes "ring_inv q"
  shows "exec_call q spur c = None \<longleftrightarrow>
         \<not> eventually_succeeds spur \<and>
         (case c of Call_enqueue v \<Rightarrow> length (contents q) < length (m_ring q)
                  | Call_dequeue \<Rightarrow> contents q \<noteq> []
                  | Call_empty \<Rightarrow> False)"
proof -
  have "pending q \<le> length (m_ring q)"
    using assms by (auto simp: ring_inv_def)
  moreover have "contents q \<noteq> [] \<longleftrightarrow> 0 < pending q"
    using length_contents[of q] by (cases "contents q") auto
  ultimately show ?thesis
    using assms
    by (cases c)
      (auto simp: enqueue_inv_eq dequeue_inv_eq empty_inv_eq length_contents)
qed

lemma exec_call_ret_shape:
  assumes "exec_call q spur c = Some (r, q')"
  shows "case c of Call_enqueue v \<Rightarrow> \<exists>b. r = Ret_enqueue b
                 | Call_dequeue \<Rightarrow> \<exists>x. r = Ret_dequeue x
                 | Call_empty \<Rightarrow> \<exists>b. r = Ret_empty b"
  using assms by (cases c) (auto split: option.splits)

lemma enqueued_step:
  assumes "exec_call q spur c = Some (r, q')"
  shows "length (enqueued (c # cs) (r # rs)) =
           (if r = Ret_enqueue True then 1 else 0) + length (enqueued cs rs)"
proof (cases c)
  case (Call_enqueue v)
  with exec_call_ret_shape[OF assms] obtain b where "r = Ret_enqueue b" by auto
  with Call_enqueue show ?thesis by (cases b) simp_all
next
  case Call_dequeue
  with exec_call_ret_shape[OF assms] show ?thesis by auto
next
  case Call_empty
  with exec_call_ret_shape[OF assms] show ?thesis by auto
qed

lemma dequeued_step:
  "length (dequeued (r # rs)) =
     (if r \<in> range (Ret_dequeue \<circ> Some) then 1 else 0) + length (dequeued rs)"
proof (cases r)
  case (Ret_dequeue x)
  then show ?thesis by (cases x) auto
qed auto

lemma run_Cons_Some:
  assumes "run q sch (c # cs) = Some (rs, q'')"
  obtains r q' rs' where "exec_call q (sch 0) c = Some (r, q')"
    "run q' (\<lambda>n. sch (Suc n)) cs = Some (rs', q'')" "rs = r # rs'"
  using assms by (auto split: option.splits)

lemma run_refines:
  assumes "ring_inv q" "run q sch cs = Some (rs, q')"
  shows "ring_inv q' \<and> length (m_ring q') = length (m_ring q) \<and>
         fifo_run (length (m_ring q)) (contents q) cs = (rs, contents q') \<and>
         m_enqueue_pos q' = m_enqueue_pos q + of_nat (length (enqueued cs rs)) \<and>
         m_dequeue_pos q' = m_dequeue_pos q + of_nat (length (dequeued rs))"
  using assms
proof (induction cs arbitrary: q sch rs)
  case Nil
  then show ?case by simp
next
  case (Cons c cs)
  from Cons.prems(2) obtain r q1 rs' where
    step: "exec_call q (sch 0) c = Some (r, q1)"
    and rest: "run q1 (\<lambda>n. sch (Suc n)) cs = Some (rs', q')" and rs: "rs = r # rs'"
    by (rule run_Cons_Some)
  note one = exec_call_refines[OF Cons.prems(1) step]
  from one have inv1: "ring_inv q1" by simp
  note more = Cons.IH[OF inv1 rest]
  have "fifo_run (length (m_ring q)) (contents q) (c # cs) = (rs, contents q')"
    using one more rs by simp
  moreover have "m_enqueue_pos q' = m_enqueue_pos q + of_nat (length (enqueued (c # cs) rs))"
    using one more by (simp add: rs enqueued_step[OF step])
  moreover have "m_dequeue_pos q' = m_dequeue_pos q + of_nat (length (dequeued rs))"
    using one more by (simp add: rs dequeued_step)
  ultimately show ?case using one more by simp
qed

lemma run_returns:
  assumes "ring_inv q" "\<forall>c. eventually_succeeds (sch c)"
  shows "\<exists>rs q'. run q sch cs = Some (rs, q')"
  using assms
proof (induction cs arbitrary: q sch)
  case Nil
  then show ?case by simp
next
  case (Cons c cs)
  from exec_call_returns[OF Cons.prems(1), of "sch 0" c] Cons.prems(2)
  obtain r q1 where step: "exec_call q (sch 0) c = Some (r, q1)" by auto
  from exec_call_refines[OF Cons.prems(1) step] have "ring_inv q1" by simp
  from Cons.IH[OF this, of "\<lambda>n. sch (Suc n)"] Cons.prems(2)
  obtain rs q' where "run q1 (\<lambda>n. sch (Suc n)) cs = Some (rs, q')" by auto
  with step show ?case by simp
qed

lemma run_Cons_fst:
  assumes "exec_call q (sch 0) c = Some (r, q1)"
  shows "map_option fst (run q sch (c # cs)) =
         map_option ((#) r) (map_option fst (run q1 (\<lambda>n. sch (Suc n)) cs))"
  using assms by (cases "run q1 (\<lambda>n. sch (Suc n)) cs") auto

lemma run_same_behaviour:
  assumes "ring_inv q" "ring_inv p" "contents q = contents p"
    "length (m_ring q) = length (m_ring p)"
  shows "map_option fst (run q sch cs) = map_option fst (run p sch cs)"
  using assms
proof (induction cs arbitrary: q p sch)
  case Nil
  then show ?case by simp
next
  case (Cons c cs)
  have iff: "exec_call q (sch 0) c = None \<longleftrightarrow> exec_call p (sch 0) c = None"
    by (simp only: exec_call_None_iff[OF Cons.prems(1)] exec_call_None_iff[OF Cons.prems(2)]
          Cons.prems(3,4))
  show ?case
  proof (cases "exec_call q (sch 0) c")
    case None
    with iff have "exec_call p (sch 0) c = None" by simp
    with None show ?thesis by simp
  next
    case (Some a)
    then obtain r q1 where q1: "exec_call q (sch 0) c = Some (r, q1)" by (cases a) auto
    with iff have "exec_call p (sch 0) c \<noteq> None" by simp
    then obtain r' p1 where p1: "exec_call p (sch 0) c = Some (r', p1)" by auto
    note a = exec_call_refines[OF Cons.prems(1) q1] and b = exec_call_refines[OF Cons.prems(2) p1]
    from a b Cons.prems have eq: "r = r'" "contents q1 = contents p1"
      "length (m_ring q1) = length (m_ring p1)" "ring_inv q1" "ring_inv p1"
      by auto
    from Cons.IH[OF eq(4,5,2,3), of "\<lambda>n. sch (Suc n)"] eq(1) show ?thesis
      by (simp only: run_Cons_fst[of q sch, OF q1] run_Cons_fst[of p sch, OF p1])
  qed
qed

text \<open>Facts about the reference FIFO alone.\<close>

lemma fifo_call_ret_shape:
  "fifo_call N xs c = (r, ys) \<Longrightarrow>
     (case c of Call_enqueue v \<Rightarrow> \<exists>b. r = Ret_enqueue b
              | Call_dequeue \<Rightarrow> \<exists>x. r = Ret_dequeue x
              | Call_empty \<Rightarrow> \<exists>b. r = Ret_empty b)"
  by (cases c) (auto split: if_splits list.splits)

lemma fifo_call_order:
  assumes "fifo_call N xs c = (r, ys)"
  shows "xs @ enqueued (c # cs) (r # rs) = dequeued [r] @ ys @ enqueued cs rs"
  using assms by (cases c) (auto split: if_splits list.splits)

lemma dequeued_Cons: "dequeued (r # rs) = dequeued [r] @ dequeued rs"
proof (cases r)
  case (Ret_dequeue x)
  then show ?thesis by (cases x) auto
qed auto

lemma fifo_run_order:
  "fifo_run N xs cs = (rs, ys) \<Longrightarrow> xs @ enqueued cs rs = dequeued rs @ ys"
proof (induction cs arbitrary: xs rs)
  case Nil
  then show ?case by simp
next
  case (Cons c cs)
  from Cons.prems obtain r xs' rs' where
    step: "fifo_call N xs c = (r, xs')" and rest: "fifo_run N xs' cs = (rs', ys)"
    and rs: "rs = r # rs'"
    by (auto split: prod.splits)
  have "xs @ enqueued (c # cs) rs = dequeued [r] @ xs' @ enqueued cs rs'"
    using fifo_call_order[OF step] rs by simp
  also have "\<dots> = dequeued [r] @ dequeued rs' @ ys"
    using Cons.IH[OF rest] by simp
  finally show ?case using dequeued_Cons[of r rs'] rs by simp
qed

section \<open>The claims about sequential executions\<close>

lemma ring_inv_capacity:
  assumes "ring_inv q"
  shows "m_capacity q + 1 = of_nat (length (m_ring q))"
proof -
  from assms obtain k where "m_capacity q = mask k" "length (m_ring q) = 2 ^ k"
    by (auto simp: ring_inv_def)
  then show ?thesis by (simp add: mask_eq_exp_minus_1)
qed

text \<open>
  C1. In every state reached from a freshly constructed queue by a sequence of calls, the
  difference \<open>m_enqueue_pos - m_dequeue_pos\<close> (a 64-bit value, read unsigned) is at most the
  capacity \<open>n_elems\<close>, and it is the number of values accepted by enqueue calls and not
  yet handed out by dequeue calls.
\<close>

theorem capacity_bound:
  assumes "mpmc_bq raw n_elems = Some q0" and "run q0 sch cs = Some (rs, q)"
  shows "unat (m_enqueue_pos q - m_dequeue_pos q) \<le> unat n_elems \<and>
         length (enqueued cs rs) =
           length (dequeued rs) + unat (m_enqueue_pos q - m_dequeue_pos q)"
proof -
  note fresh = ring_inv_fresh[OF assms(1)]
  note r = run_refines[OF fresh(1) assms(2)]
  from r have "ring_inv q" by simp
  then have "pending q \<le> length (m_ring q)" by (auto simp: ring_inv_def)
  with r fresh(3) have bound: "pending q \<le> unat n_elems" by simp
  have "contents q0 = []" using fresh(2) by (simp add: contents_def)
  with r have "fifo_run (unat n_elems) [] cs = (rs, contents q)"
    using fresh(3) by simp
  from fifo_run_order[OF this] have "length (enqueued cs rs) = length (dequeued rs) + pending q"
    using length_contents[of q] by (metis append_Nil length_append)
  with bound show ?thesis by (simp add: pending_def)
qed

theorem capacity_bound_witness:
  "mpmc_bq (\<lambda>i. \<lparr>m_pos = 0, m_data = 0 :: nat\<rparr>) 2 =
     Some \<lparr>m_ring = [\<lparr>m_pos = 0, m_data = 0\<rparr>, \<lparr>m_pos = 1, m_data = 0\<rparr>],
           m_capacity = 1, m_enqueue_pos = 0, m_dequeue_pos = 0\<rparr> \<and>
   run \<lparr>m_ring = [\<lparr>m_pos = 0, m_data = 0 :: nat\<rparr>, \<lparr>m_pos = 1, m_data = 0\<rparr>],
        m_capacity = 1, m_enqueue_pos = 0, m_dequeue_pos = 0\<rparr>
       (\<lambda>c i. False) [Call_enqueue 7, Call_enqueue 8, Call_enqueue 9, Call_dequeue] =
     Some ([Ret_enqueue True, Ret_enqueue True, Ret_enqueue False, Ret_dequeue (Some 7)],
           \<lparr>m_ring = [\<lparr>m_pos = 2, m_data = 7\<rparr>, \<lparr>m_pos = 2, m_data = 8\<rparr>],
            m_capacity = 1, m_enqueue_pos = 2, m_dequeue_pos = 1\<rparr>) \<and>
   unat (2 - 1 :: 64 word) \<le> unat (2 :: 64 word)"
proof -
  have a: "mpmc_bq (\<lambda>i. \<lparr>m_pos = 0, m_data = 0 :: nat\<rparr>) 2 =
     Some \<lparr>m_ring = [\<lparr>m_pos = 0, m_data = 0\<rparr>, \<lparr>m_pos = 1, m_data = 0\<rparr>],
           m_capacity = 1, m_enqueue_pos = 0, m_dequeue_pos = 0\<rparr>"
    by code_simp
  have b: "run \<lparr>m_ring = [\<lparr>m_pos = 0, m_data = 0 :: nat\<rparr>, \<lparr>m_pos = 1, m_data = 0\<rparr>],
        m_capacity = 1, m_enqueue_pos = 0, m_dequeue_pos = 0\<rparr>
       (\<lambda>c i. False) [Call_enqueue 7, Call_enqueue 8, Call_enqueue 9, Call_dequeue] =
     Some ([Ret_enqueue True, Ret_enqueue True, Ret_enqueue False, Ret_dequeue (Some 7)],
           \<lparr>m_ring = [\<lparr>m_pos = 2, m_data = 7\<rparr>, \<lparr>m_pos = 2, m_data = 8\<rparr>],
            m_capacity = 1, m_enqueue_pos = 2, m_dequeue_pos = 1\<rparr>)"
    by code_simp
  from capacity_bound[OF a b] a b show ?thesis by simp
qed

text \<open>
  C5. A call of enqueue or dequeue that returns false leaves the queue as it was: both
  cursors, every sequence number and every payload. This holds for every queue value, not
  only for the reachable ones.
\<close>

theorem failed_call_leaves_queue:
  "(enqueue q spur data = Some (False, q') \<longrightarrow> q' = q) \<and>
   (dequeue q spur = Some (None, q') \<longrightarrow> q' = q)"
  by (auto simp: enqueue_eq dequeue_eq split: if_splits)

theorem failed_call_leaves_queue_witness:
  "enqueue \<lparr>m_ring = [\<lparr>m_pos = 1, m_data = 7 :: nat\<rparr>, \<lparr>m_pos = 2, m_data = 8\<rparr>],
            m_capacity = 1, m_enqueue_pos = 2, m_dequeue_pos = 0\<rparr> (\<lambda>i. False) 9 =
     Some (False, \<lparr>m_ring = [\<lparr>m_pos = 1, m_data = 7\<rparr>, \<lparr>m_pos = 2, m_data = 8\<rparr>],
                   m_capacity = 1, m_enqueue_pos = 2, m_dequeue_pos = 0\<rparr>) \<and>
   dequeue \<lparr>m_ring = [\<lparr>m_pos = 0, m_data = 0 :: nat\<rparr>, \<lparr>m_pos = 1, m_data = 0\<rparr>],
            m_capacity = 1, m_enqueue_pos = 0, m_dequeue_pos = 0\<rparr> (\<lambda>i. False) =
     Some (None, \<lparr>m_ring = [\<lparr>m_pos = 0, m_data = 0\<rparr>, \<lparr>m_pos = 1, m_data = 0\<rparr>],
                  m_capacity = 1, m_enqueue_pos = 0, m_dequeue_pos = 0\<rparr>)"
proof -
  let ?full = "\<lparr>m_ring = [\<lparr>m_pos = 1, m_data = 7 :: nat\<rparr>, \<lparr>m_pos = 2, m_data = 8\<rparr>],
            m_capacity = 1, m_enqueue_pos = 2, m_dequeue_pos = 0\<rparr>"
  let ?none = "\<lparr>m_ring = [\<lparr>m_pos = 0, m_data = 0 :: nat\<rparr>, \<lparr>m_pos = 1, m_data = 0\<rparr>],
            m_capacity = 1, m_enqueue_pos = 0, m_dequeue_pos = 0\<rparr>"
  have "fst (the (enqueue ?full (\<lambda>i. False) 9)) = False \<and> enqueue ?full (\<lambda>i. False) 9 \<noteq> None"
    by code_simp
  then obtain q' where a: "enqueue ?full (\<lambda>i. False) 9 = Some (False, q')"
    by (cases "enqueue ?full (\<lambda>i. False) 9") auto
  have "fst (the (dequeue ?none (\<lambda>i. False))) = None \<and> dequeue ?none (\<lambda>i. False) \<noteq> None"
    by code_simp
  then obtain q'' where b: "dequeue ?none (\<lambda>i. False) = Some (None, q'')"
    by (cases "dequeue ?none (\<lambda>i. False)") auto
  from failed_call_leaves_queue[of ?full "\<lambda>i. False" 9 q']
    failed_call_leaves_queue[of ?none "\<lambda>i. False" 9 q''] a b
  show ?thesis by simp
qed

text \<open>
  C10. A dequeue that returns true on a reachable queue changes two things only: it advances
  \<open>m_dequeue_pos\<close> by one and sets the sequence number of the cell at index
  \<open>pos & m_capacity\<close> to \<open>pos + n_elems\<close>. The payload of that cell is not cleared: it
  still holds the value handed out, and no payload of the ring changes. (Only
  \<open>enqueue_publish\<close> writes a payload.)
\<close>

theorem dequeue_keeps_payload:
  assumes "mpmc_bq raw n_elems = Some q0" and "run q0 sch cs = Some (rs, q)"
    and "dequeue q spur = Some (Some v, q')"
  shows "cell_index q (m_dequeue_pos q) < length (m_ring q) \<and>
         m_data (m_ring q' ! cell_index q (m_dequeue_pos q)) = v \<and>
         q' = q\<lparr>m_dequeue_pos := m_dequeue_pos q + 1,
                m_ring := (m_ring q)[cell_index q (m_dequeue_pos q) :=
                             \<lparr>m_pos = m_dequeue_pos q + n_elems, m_data = v\<rparr>]\<rparr> \<and>
         map m_data (m_ring q') = map m_data (m_ring q)"
proof -
  note fresh = ring_inv_fresh[OF assms(1)]
  from run_refines[OF fresh(1) assms(2)] fresh(3)
  have inv: "ring_inv q" and len: "length (m_ring q) = unat n_elems" by simp_all
  let ?d = "m_dequeue_pos q"
  let ?i = "cell_index q ?d"
  let ?r = "dequeue_rearm (q\<lparr>m_dequeue_pos := ?d + 1\<rparr>) ?d"
  from assms(3) have r: "v = fst ?r" "q' = snd ?r"
    by (auto simp: dequeue_inv_eq[OF inv] split: if_splits)
  have "m_capacity q + 1 = n_elems"
    using ring_inv_capacity[OF inv] len by simp
  then have arm: "?d + m_capacity q + 1 = ?d + n_elems"
    by (simp add: add.assoc)
  have i_lt: "?i < length (m_ring q)"
    using inv cell_index_less[of q _ ?d] by (auto simp: ring_inv_def)
  have v: "v = m_data (m_ring q ! ?i)"
    by (simp add: r dequeue_rearm_def cell_index_def Let_def)
  have "q' = q\<lparr>m_dequeue_pos := ?d + 1,
                m_ring := (m_ring q)[?i := (m_ring q ! ?i)\<lparr>m_pos := ?d + m_capacity q + 1\<rparr>]\<rparr>"
    by (simp add: r dequeue_rearm_def cell_index_def Let_def)
  moreover have "(m_ring q ! ?i)\<lparr>m_pos := ?d + m_capacity q + 1\<rparr> =
                 \<lparr>m_pos = ?d + n_elems, m_data = v\<rparr>"
    by (simp only: arm v) (cases "m_ring q ! ?i", simp)
  ultimately have q': "q' = q\<lparr>m_dequeue_pos := ?d + 1,
                m_ring := (m_ring q)[?i := \<lparr>m_pos = ?d + n_elems, m_data = v\<rparr>]\<rparr>"
    by (simp only:)
  have "m_data (m_ring q' ! ?i) = v"
    using i_lt by (simp add: q')
  moreover have "map m_data (m_ring q') = map m_data (m_ring q)"
  proof -
    have "(map m_data (m_ring q))[?i := map m_data (m_ring q) ! ?i] = map m_data (m_ring q)"
      by (rule list_update_id)
    then show ?thesis
      using i_lt by (simp add: q' map_update v)
  qed
  ultimately show ?thesis using i_lt q' by simp
qed

theorem dequeue_keeps_payload_witness:
  "mpmc_bq (\<lambda>i. \<lparr>m_pos = 0, m_data = 0 :: nat\<rparr>) 2 =
     Some \<lparr>m_ring = [\<lparr>m_pos = 0, m_data = 0\<rparr>, \<lparr>m_pos = 1, m_data = 0\<rparr>],
           m_capacity = 1, m_enqueue_pos = 0, m_dequeue_pos = 0\<rparr> \<and>
   run \<lparr>m_ring = [\<lparr>m_pos = 0, m_data = 0 :: nat\<rparr>, \<lparr>m_pos = 1, m_data = 0\<rparr>],
        m_capacity = 1, m_enqueue_pos = 0, m_dequeue_pos = 0\<rparr>
       (\<lambda>c i. False) [Call_enqueue 7, Call_enqueue 8] =
     Some ([Ret_enqueue True, Ret_enqueue True],
           \<lparr>m_ring = [\<lparr>m_pos = 1, m_data = 7\<rparr>, \<lparr>m_pos = 2, m_data = 8\<rparr>],
            m_capacity = 1, m_enqueue_pos = 2, m_dequeue_pos = 0\<rparr>) \<and>
   dequeue \<lparr>m_ring = [\<lparr>m_pos = 1, m_data = 7 :: nat\<rparr>, \<lparr>m_pos = 2, m_data = 8\<rparr>],
            m_capacity = 1, m_enqueue_pos = 2, m_dequeue_pos = 0\<rparr> (\<lambda>i. False) =
     Some (Some 7, \<lparr>m_ring = [\<lparr>m_pos = 2, m_data = 7\<rparr>, \<lparr>m_pos = 2, m_data = 8\<rparr>],
                    m_capacity = 1, m_enqueue_pos = 2, m_dequeue_pos = 1\<rparr>) \<and>
   m_data ([\<lparr>m_pos = 2 :: 64 word, m_data = 7 :: nat\<rparr>, \<lparr>m_pos = 2, m_data = 8\<rparr>] ! 0) = 7"
proof -
  have a: "mpmc_bq (\<lambda>i. \<lparr>m_pos = 0, m_data = 0 :: nat\<rparr>) 2 =
     Some \<lparr>m_ring = [\<lparr>m_pos = 0, m_data = 0\<rparr>, \<lparr>m_pos = 1, m_data = 0\<rparr>],
           m_capacity = 1, m_enqueue_pos = 0, m_dequeue_pos = 0\<rparr>"
    by code_simp
  have b: "run \<lparr>m_ring = [\<lparr>m_pos = 0, m_data = 0 :: nat\<rparr>, \<lparr>m_pos = 1, m_data = 0\<rparr>],
        m_capacity = 1, m_enqueue_pos = 0, m_dequeue_pos = 0\<rparr>
       (\<lambda>c i. False) [Call_enqueue 7, Call_enqueue 8] =
     Some ([Ret_enqueue True, Ret_enqueue True],
           \<lparr>m_ring = [\<lparr>m_pos = 1, m_data = 7\<rparr>, \<lparr>m_pos = 2, m_data = 8\<rparr>],
            m_capacity = 1, m_enqueue_pos = 2, m_dequeue_pos = 0\<rparr>)"
    by code_simp
  have c: "dequeue \<lparr>m_ring = [\<lparr>m_pos = 1, m_data = 7 :: nat\<rparr>, \<lparr>m_pos = 2, m_data = 8\<rparr>],
            m_capacity = 1, m_enqueue_pos = 2, m_dequeue_pos = 0\<rparr> (\<lambda>i. False) =
     Some (Some 7, \<lparr>m_ring = [\<lparr>m_pos = 2, m_data = 7\<rparr>, \<lparr>m_pos = 2, m_data = 8\<rparr>],
                    m_capacity = 1, m_enqueue_pos = 2, m_dequeue_pos = 1\<rparr>)"
    by code_simp
  from dequeue_keeps_payload[OF a b c] a b c show ?thesis
    by (simp add: cell_index_def)
qed

text \<open>
  C8. The tests of enqueue, dequeue and empty branch on \<open>diff\<close>, the wrapped 64-bit
  difference of the sequence number and the position read as a two's-complement number.
  When the sequence number and the position stand for unbounded counters \<open>S\<close> and \<open>P\<close>
  that are less than \<open>2 ^ 63\<close> apart, \<open>diff\<close> is exactly \<open>S - P\<close>, however often the
  64-bit values have wrapped. An unsigned comparison is not equivalent: one step past the
  wrap the sequence number 0 is ahead of the position \<open>2 ^ 64 - 1\<close> by one, yet it is the
  smaller unsigned value.
\<close>

theorem signed_difference_tolerates_wrap:
  "intptr_diff seq pos = sint (seq - pos) \<and>
   (- (2 ^ 63) \<le> S - P \<and> S - P < 2 ^ 63 \<longrightarrow>
      intptr_diff (word_of_int S) (word_of_int P) = S - P) \<and>
   (enqueue_iter q spurious pos = Return_false \<longleftrightarrow>
      sint (m_pos (m_ring q ! cell_index q pos) - pos) < 0) \<and>
   (dequeue_iter q spurious pos = Return_false \<longleftrightarrow>
      sint (m_pos (m_ring q ! cell_index q pos) - (pos + 1)) < 0) \<and>
   (empty q = Some True \<longleftrightarrow>
      sint (m_pos (m_ring q ! cell_index q (m_dequeue_pos q)) - (m_dequeue_pos q + 1)) < 0) \<and>
   intptr_diff 0 (- 1) = 1 \<and> (0 :: 64 word) < - 1"
proof -
  have a: "intptr_diff seq pos = sint (seq - pos)" by (rule intptr_diff_sint)
  have b: "intptr_diff (word_of_int S) (word_of_int P) = S - P"
    if "- (2 ^ 63) \<le> S - P" "S - P < 2 ^ 63"
  proof -
    have "word_of_int S - word_of_int P = (word_of_int (S - P) :: 64 word)"
      by simp
    then have "intptr_diff (word_of_int S) (word_of_int P) =
               sint (word_of_int (S - P) :: 64 word)"
      by (simp only: intptr_diff_sint)
    also have "\<dots> = signed_take_bit 63 (S - P)"
      by (simp only: sint_sbintrunc') simp
    also have "\<dots> = S - P"
      using that by (rule signed_take_bit_int_eq_self)
    finally show ?thesis .
  qed
  have c: "enqueue_iter q spurious pos = Return_false \<longleftrightarrow>
      sint (m_pos (m_ring q ! cell_index q pos) - pos) < 0"
    by (auto simp: enqueue_iter_def Let_def intptr_diff_sint compare_exchange_weak_def
             split: if_splits)
  have d: "dequeue_iter q spurious pos = Return_false \<longleftrightarrow>
      sint (m_pos (m_ring q ! cell_index q pos) - (pos + 1)) < 0"
    by (auto simp: dequeue_iter_def Let_def intptr_diff_sint compare_exchange_weak_def
             split: if_splits)
  have e: "empty q = Some True \<longleftrightarrow>
      sint (m_pos (m_ring q ! cell_index q (m_dequeue_pos q)) - (m_dequeue_pos q + 1)) < 0"
    by (auto simp: empty_eq dequeue_diff_def intptr_diff_sint)
  have f: "intptr_diff 0 (- 1) = 1" by (simp add: intptr_diff_sint)
  have g: "(0 :: 64 word) < - 1" by (simp add: word_gt_0)
  from a b c d e f g show ?thesis by blast
qed

theorem signed_difference_tolerates_wrap_witness:
  "- (2 ^ 63) \<le> (2 ^ 64 :: int) - (2 ^ 64 - 1) \<and> (2 ^ 64 :: int) - (2 ^ 64 - 1) < 2 ^ 63 \<and>
   (word_of_int (2 ^ 64) :: 64 word) = 0 \<and> (word_of_int (2 ^ 64 - 1) :: 64 word) = - 1 \<and>
   intptr_diff (word_of_int (2 ^ 64)) (word_of_int (2 ^ 64 - 1)) = 1"
proof -
  have h: "- (2 ^ 63) \<le> (2 ^ 64 :: int) - (2 ^ 64 - 1)" "(2 ^ 64 :: int) - (2 ^ 64 - 1) < 2 ^ 63"
    by simp_all
  have w: "(word_of_int (2 ^ 64) :: 64 word) = 0" "(word_of_int (2 ^ 64 - 1) :: 64 word) = - 1"
    by simp_all
  from signed_difference_tolerates_wrap[of _ _ "2 ^ 64" "2 ^ 64 - 1"] h
  have "intptr_diff (word_of_int (2 ^ 64)) (word_of_int (2 ^ 64 - 1)) = 2 ^ 64 - (2 ^ 64 - 1)"
    by blast
  then show ?thesis using h w by simp
qed

lemma fifo_run_append:
  "fifo_run N xs (cs @ ds) =
     (case fifo_run N xs cs of
        (rs, ys) \<Rightarrow> (case fifo_run N ys ds of (rs', zs) \<Rightarrow> (rs @ rs', zs)))"
  by (induction cs arbitrary: xs) (auto split: prod.splits)

lemma fifo_run_enqueues:
  "length xs + length vs \<le> N \<Longrightarrow>
   fifo_run N xs (map Call_enqueue vs) = (replicate (length vs) (Ret_enqueue True), xs @ vs)"
  by (induction vs arbitrary: xs) auto

lemma fifo_run_dequeues:
  "fifo_run N xs (replicate (length xs) Call_dequeue) = (map (\<lambda>v. Ret_dequeue (Some v)) xs, [])"
  by (induction xs) auto

lemma fifo_run_pairs:
  "0 < N \<Longrightarrow>
   fifo_run N [] (concat (map (\<lambda>v. [Call_enqueue v, Call_dequeue]) vs)) =
     (concat (map (\<lambda>v. [Ret_enqueue True, Ret_dequeue (Some v)]) vs), [])"
  by (induction vs) auto

lemma enqueued_pairs:
  "enqueued (concat (map (\<lambda>v. [Call_enqueue v, Call_dequeue]) vs))
            (concat (map (\<lambda>v. [Ret_enqueue True, Ret_dequeue (Some v)]) vs)) = vs"
  by (induction vs) auto

lemma dequeued_pairs:
  "dequeued (concat (map (\<lambda>v. [Ret_enqueue True, Ret_dequeue (Some v)]) vs)) = vs"
  by (induction vs) auto

text \<open>A run that returns on a ring with the invariant, from an empty ring, given directly
  by the reference FIFO.\<close>

lemma run_by_fifo:
  assumes "ring_inv q" "\<forall>c. eventually_succeeds (sch c)"
  shows "\<exists>q'. run q sch cs = Some (fst (fifo_run (length (m_ring q)) (contents q) cs), q') \<and>
              ring_inv q' \<and> length (m_ring q') = length (m_ring q) \<and>
              contents q' = snd (fifo_run (length (m_ring q)) (contents q) cs) \<and>
              m_enqueue_pos q' = m_enqueue_pos q +
                of_nat (length (enqueued cs (fst (fifo_run (length (m_ring q)) (contents q) cs)))) \<and>
              m_dequeue_pos q' = m_dequeue_pos q +
                of_nat (length (dequeued (fst (fifo_run (length (m_ring q)) (contents q) cs))))"
proof -
  from run_returns[OF assms, of cs] obtain rs q' where r: "run q sch cs = Some (rs, q')"
    by blast
  from run_refines[OF assms(1) r] r show ?thesis by auto
qed

text \<open>
  C3. A queue constructed with capacity 4 and used by one thread: \<open>empty\<close> returns true; a
  first dequeue returns false; enqueue of 10, 20, 30 and 40 returns true each time; enqueue
  of 50 returns false; four dequeue calls hand out 10, 20, 30, 40 in this order; a fifth
  dequeue returns false. This holds whatever the raw storage held, and however often the
  compare-exchange fails spuriously, as long as it does not fail for ever.
\<close>

theorem scenario_capacity_four:
  assumes "\<forall>c. eventually_succeeds (sch c)"
  shows "\<exists>q0 q. mpmc_bq raw 4 = Some q0 \<and>
           run q0 sch
             [Call_empty, Call_dequeue,
              Call_enqueue 10, Call_enqueue 20, Call_enqueue 30, Call_enqueue 40,
              Call_enqueue 50,
              Call_dequeue, Call_dequeue, Call_dequeue, Call_dequeue, Call_dequeue] =
           Some ([Ret_empty True, Ret_dequeue None,
                  Ret_enqueue True, Ret_enqueue True, Ret_enqueue True, Ret_enqueue True,
                  Ret_enqueue False,
                  Ret_dequeue (Some (10 :: int)), Ret_dequeue (Some 20), Ret_dequeue (Some 30),
                  Ret_dequeue (Some 40), Ret_dequeue None], q)"
proof -
  have "mpmc_bq raw 4 \<noteq> None"
    by (simp add: mpmc_bq_def)
  then obtain q0 where q0: "mpmc_bq raw 4 = Some q0" by auto
  note fresh = ring_inv_fresh[OF q0]
  have c: "contents q0 = []" using fresh(2) by (simp add: contents_def)
  have l: "length (m_ring q0) = 4" using fresh(3) by simp
  let ?cs = "[Call_empty, Call_dequeue,
              Call_enqueue 10, Call_enqueue 20, Call_enqueue 30, Call_enqueue 40,
              Call_enqueue 50,
              Call_dequeue, Call_dequeue, Call_dequeue, Call_dequeue, Call_dequeue :: int call]"
  from run_by_fifo[OF fresh(1) assms, of ?cs] obtain q
    where "run q0 sch ?cs = Some (fst (fifo_run 4 [] ?cs), q)"
    unfolding c l by blast
  moreover have "fst (fifo_run 4 [] ?cs) =
      [Ret_empty True, Ret_dequeue None,
       Ret_enqueue True, Ret_enqueue True, Ret_enqueue True, Ret_enqueue True,
       Ret_enqueue False,
       Ret_dequeue (Some 10), Ret_dequeue (Some 20), Ret_dequeue (Some 30),
       Ret_dequeue (Some 40), Ret_dequeue None]"
    by simp
  ultimately show ?thesis using q0 by (simp only:) blast
qed

theorem scenario_capacity_four_witness:
  "(\<forall>c. eventually_succeeds (\<lambda>i. i < c)) \<and>
   mpmc_bq (\<lambda>i. \<lparr>m_pos = 0, m_data = 0 :: int\<rparr>) 4 =
     Some \<lparr>m_ring = [\<lparr>m_pos = 0, m_data = 0\<rparr>, \<lparr>m_pos = 1, m_data = 0\<rparr>,
                    \<lparr>m_pos = 2, m_data = 0\<rparr>, \<lparr>m_pos = 3, m_data = 0\<rparr>],
           m_capacity = 3, m_enqueue_pos = 0, m_dequeue_pos = 0\<rparr> \<and>
   map_option fst
     (run \<lparr>m_ring = [\<lparr>m_pos = 0, m_data = 0\<rparr>, \<lparr>m_pos = 1, m_data = 0\<rparr>,
                    \<lparr>m_pos = 2, m_data = 0\<rparr>, \<lparr>m_pos = 3, m_data = 0\<rparr>],
           m_capacity = 3, m_enqueue_pos = 0, m_dequeue_pos = 0\<rparr>
        (\<lambda>c i. i < c)
        [Call_empty, Call_dequeue,
         Call_enqueue 10, Call_enqueue 20, Call_enqueue 30, Call_enqueue 40,
         Call_enqueue 50,
         Call_dequeue, Call_dequeue, Call_dequeue, Call_dequeue, Call_dequeue]) =
     Some [Ret_empty True, Ret_dequeue None,
           Ret_enqueue True, Ret_enqueue True, Ret_enqueue True, Ret_enqueue True,
           Ret_enqueue False,
           Ret_dequeue (Some (10 :: int)), Ret_dequeue (Some 20), Ret_dequeue (Some 30),
           Ret_dequeue (Some 40), Ret_dequeue None]"
proof -
  have fair: "\<forall>c. eventually_succeeds ((\<lambda>c i. i < c) c)"
    by (auto simp: eventually_succeeds_def)
  have a: "mpmc_bq (\<lambda>i. \<lparr>m_pos = 0, m_data = 0 :: int\<rparr>) 4 =
     Some \<lparr>m_ring = [\<lparr>m_pos = 0, m_data = 0\<rparr>, \<lparr>m_pos = 1, m_data = 0\<rparr>,
                    \<lparr>m_pos = 2, m_data = 0\<rparr>, \<lparr>m_pos = 3, m_data = 0\<rparr>],
           m_capacity = 3, m_enqueue_pos = 0, m_dequeue_pos = 0\<rparr>"
    by code_simp
  from scenario_capacity_four[OF fair, of "\<lambda>i. \<lparr>m_pos = 0, m_data = 0 :: int\<rparr>"]
  obtain q0 q where "mpmc_bq (\<lambda>i. \<lparr>m_pos = 0, m_data = 0 :: int\<rparr>) 4 = Some q0"
    and "run q0 (\<lambda>c i. i < c)
        [Call_empty, Call_dequeue,
         Call_enqueue 10, Call_enqueue 20, Call_enqueue 30, Call_enqueue 40,
         Call_enqueue 50,
         Call_dequeue, Call_dequeue, Call_dequeue, Call_dequeue, Call_dequeue] =
     Some ([Ret_empty True, Ret_dequeue None,
           Ret_enqueue True, Ret_enqueue True, Ret_enqueue True, Ret_enqueue True,
           Ret_enqueue False,
           Ret_dequeue (Some (10 :: int)), Ret_dequeue (Some 20), Ret_dequeue (Some 30),
           Ret_dequeue (Some 40), Ret_dequeue None], q)"
    by blast
  with a fair show ?thesis by (simp del: run.simps)
qed

lemma contents_Nil_iff: "contents q = [] \<longleftrightarrow> m_enqueue_pos q = m_dequeue_pos q"
proof -
  have "contents q = [] \<longleftrightarrow> pending q = 0"
    using length_contents[of q] by (cases "contents q") auto
  then show ?thesis by (simp add: pending_def unat_eq_0)
qed

text \<open>
  C2. First in order: for every sequence of calls on a fresh queue, the values handed out by
  the successful dequeue calls, followed by what the ring still holds, are exactly the
  values accepted by the successful enqueue calls, in the order of their tickets. So every
  accepted value is handed out at most once, in order, and nothing else is handed out.
  Second, producer then consumer: on a reachable queue that is empty, enqueue calls for
  \<open>v1, v2, ...\<close> (at most \<open>n_elems\<close> of them) all return true, the same number of
  dequeue calls then return \<open>v1, v2, ...\<close> in this order, and the queue is empty again.
\<close>

theorem fifo_order:
  assumes "mpmc_bq raw n_elems = Some q0" and "run q0 sch cs = Some (rs, q)"
  shows "enqueued cs rs = dequeued rs @ contents q \<and>
         (m_enqueue_pos q = m_dequeue_pos q \<and> length vs \<le> unat n_elems \<and>
          (\<forall>c. eventually_succeeds (sch' c)) \<longrightarrow>
          (\<exists>q'. run q sch' (map Call_enqueue vs @ replicate (length vs) Call_dequeue) =
                  Some (replicate (length vs) (Ret_enqueue True) @
                        map (\<lambda>v. Ret_dequeue (Some v)) vs, q') \<and>
                m_enqueue_pos q' = m_dequeue_pos q'))"
proof
  note fresh = ring_inv_fresh[OF assms(1)]
  note r = run_refines[OF fresh(1) assms(2)]
  have "contents q0 = []" using fresh(2) by (simp add: contents_def)
  with r have "fifo_run (length (m_ring q0)) [] cs = (rs, contents q)" by simp
  from fifo_run_order[OF this] show "enqueued cs rs = dequeued rs @ contents q" by simp
  show "m_enqueue_pos q = m_dequeue_pos q \<and> length vs \<le> unat n_elems \<and>
          (\<forall>c. eventually_succeeds (sch' c)) \<longrightarrow>
          (\<exists>q'. run q sch' (map Call_enqueue vs @ replicate (length vs) Call_dequeue) =
                  Some (replicate (length vs) (Ret_enqueue True) @
                        map (\<lambda>v. Ret_dequeue (Some v)) vs, q') \<and>
                m_enqueue_pos q' = m_dequeue_pos q')"
  proof
    assume h: "m_enqueue_pos q = m_dequeue_pos q \<and> length vs \<le> unat n_elems \<and>
          (\<forall>c. eventually_succeeds (sch' c))"
    let ?cs = "map Call_enqueue vs @ replicate (length vs) Call_dequeue"
    from r have inv: "ring_inv q" and len: "length (m_ring q) = unat n_elems"
      using fresh(3) by simp_all
    from h have c: "contents q = []" by (simp add: contents_Nil_iff)
    have f: "fifo_run (unat n_elems) [] ?cs =
          (replicate (length vs) (Ret_enqueue True) @ map (\<lambda>v. Ret_dequeue (Some v)) vs, [])"
      using h fifo_run_enqueues[of "[]" vs "unat n_elems"] fifo_run_dequeues[of "unat n_elems" vs]
      by (simp add: fifo_run_append)
    from run_by_fifo[OF inv, of sch' ?cs] h obtain q' where
      "run q sch' ?cs = Some (fst (fifo_run (unat n_elems) [] ?cs), q')"
      "contents q' = snd (fifo_run (unat n_elems) [] ?cs)"
      unfolding c len by blast
    then have "run q sch' ?cs =
        Some (replicate (length vs) (Ret_enqueue True) @ map (\<lambda>v. Ret_dequeue (Some v)) vs, q')"
      and "contents q' = []"
      by (simp_all only: f fst_conv snd_conv)
    then show "\<exists>q'. run q sch' ?cs =
                  Some (replicate (length vs) (Ret_enqueue True) @
                        map (\<lambda>v. Ret_dequeue (Some v)) vs, q') \<and>
                m_enqueue_pos q' = m_dequeue_pos q'"
      by (auto simp: contents_Nil_iff)
  qed
qed

theorem fifo_order_witness:
  "mpmc_bq (\<lambda>i. \<lparr>m_pos = 0, m_data = 0 :: nat\<rparr>) 2 =
     Some \<lparr>m_ring = [\<lparr>m_pos = 0, m_data = 0\<rparr>, \<lparr>m_pos = 1, m_data = 0\<rparr>],
           m_capacity = 1, m_enqueue_pos = 0, m_dequeue_pos = 0\<rparr> \<and>
   run \<lparr>m_ring = [\<lparr>m_pos = 0, m_data = 0 :: nat\<rparr>, \<lparr>m_pos = 1, m_data = 0\<rparr>],
        m_capacity = 1, m_enqueue_pos = 0, m_dequeue_pos = 0\<rparr>
       (\<lambda>c i. False) [Call_enqueue 1, Call_dequeue] =
     Some ([Ret_enqueue True, Ret_dequeue (Some 1)],
           \<lparr>m_ring = [\<lparr>m_pos = 2, m_data = 1\<rparr>, \<lparr>m_pos = 1, m_data = 0\<rparr>],
            m_capacity = 1, m_enqueue_pos = 1, m_dequeue_pos = 1\<rparr>) \<and>
   length [5, 6 :: nat] \<le> unat (2 :: 64 word) \<and>
   (\<forall>c. eventually_succeeds (\<lambda>i. i < c)) \<and>
   map_option fst
     (run \<lparr>m_ring = [\<lparr>m_pos = 2, m_data = 1 :: nat\<rparr>, \<lparr>m_pos = 1, m_data = 0\<rparr>],
           m_capacity = 1, m_enqueue_pos = 1, m_dequeue_pos = 1\<rparr>
        (\<lambda>c i. i < c) [Call_enqueue 5, Call_enqueue 6, Call_dequeue, Call_dequeue]) =
     Some [Ret_enqueue True, Ret_enqueue True, Ret_dequeue (Some 5), Ret_dequeue (Some 6)]"
proof -
  let ?q1 = "\<lparr>m_ring = [\<lparr>m_pos = 2, m_data = 1 :: nat\<rparr>, \<lparr>m_pos = 1, m_data = 0\<rparr>],
            m_capacity = 1, m_enqueue_pos = 1, m_dequeue_pos = 1\<rparr>"
  have a: "mpmc_bq (\<lambda>i. \<lparr>m_pos = 0, m_data = 0 :: nat\<rparr>) 2 =
     Some \<lparr>m_ring = [\<lparr>m_pos = 0, m_data = 0\<rparr>, \<lparr>m_pos = 1, m_data = 0\<rparr>],
           m_capacity = 1, m_enqueue_pos = 0, m_dequeue_pos = 0\<rparr>"
    by code_simp
  have b: "run \<lparr>m_ring = [\<lparr>m_pos = 0, m_data = 0 :: nat\<rparr>, \<lparr>m_pos = 1, m_data = 0\<rparr>],
        m_capacity = 1, m_enqueue_pos = 0, m_dequeue_pos = 0\<rparr>
       (\<lambda>c i. False) [Call_enqueue 1, Call_dequeue] =
     Some ([Ret_enqueue True, Ret_dequeue (Some 1)], ?q1)"
    by code_simp
  have fair: "\<forall>c. eventually_succeeds ((\<lambda>c i. i < c) c)"
    by (auto simp: eventually_succeeds_def)
  have h: "m_enqueue_pos ?q1 = m_dequeue_pos ?q1 \<and> length [5, 6 :: nat] \<le> unat (2 :: 64 word) \<and>
           (\<forall>c. eventually_succeeds ((\<lambda>c i. i < c) c))"
    using fair by simp
  from fifo_order[OF a b, of "[5, 6]" "\<lambda>c i. i < c"] h
  obtain q' where "run ?q1 (\<lambda>c i. i < c)
       (map Call_enqueue [5, 6] @ replicate (length [5, 6 :: nat]) Call_dequeue) =
     Some (replicate (length [5, 6 :: nat]) (Ret_enqueue True) @
           map (\<lambda>v. Ret_dequeue (Some v)) [5, 6], q')"
    by blast
  then have "map_option fst (run ?q1 (\<lambda>c i. i < c)
       [Call_enqueue 5, Call_enqueue 6, Call_dequeue, Call_dequeue]) =
     Some [Ret_enqueue True, Ret_enqueue True, Ret_dequeue (Some 5), Ret_dequeue (Some 6)]"
    by (simp add: numeral_2_eq_2 del: run.simps)
  with a b h show ?thesis by (simp del: run.simps)
qed

lemma cell_index_multiple:
  assumes "m_capacity q = mask k" "k \<le> 64" "i < 2 ^ k"
  shows "cell_index q (of_nat (m * 2 ^ k) + of_nat i) = i"
proof -
  have d: "(2::nat) ^ k dvd 2 ^ 64" using assms(2) by (rule le_imp_power_dvd)
  have "unat (of_nat (m * 2 ^ k) :: 64 word) = (m * 2 ^ k) mod 2 ^ 64"
    by (simp only: unat_of_nat) simp
  then have "unat (of_nat (m * 2 ^ k) :: 64 word) mod 2 ^ k = (m * 2 ^ k) mod 2 ^ k"
    using d by (simp only: mod_mod_cancel)
  then have z: "unat (of_nat (m * 2 ^ k) :: 64 word) mod 2 ^ k = 0" by simp
  have "cell_index q (of_nat (m * 2 ^ k) + of_nat i) =
        (unat (of_nat (m * 2 ^ k) :: 64 word) + i) mod 2 ^ k"
    using assms by (rule cell_index_offset)
  also have "\<dots> = (unat (of_nat (m * 2 ^ k) :: 64 word) mod 2 ^ k + i) mod 2 ^ k"
    by (simp only: mod_add_left_eq)
  also have "\<dots> = i" using assms(3) by (simp only: z) simp
  finally show ?thesis .
qed

lemma armed_cells:
  assumes "ring_inv q" "pending q = 0" "m_dequeue_pos q = of_nat (m * length (m_ring q))"
    and "i < length (m_ring q)"
  shows "m_pos (m_ring q ! i) = of_nat i + of_nat (m * length (m_ring q))"
proof -
  from assms(1) obtain k where k: "1 \<le> k" "k < 64" "m_capacity q = mask k"
    "length (m_ring q) = 2 ^ k" "pending q \<le> 2 ^ k"
    and all_cells: "\<forall>j < 2 ^ k.
       m_pos (m_ring q ! cell_index q (m_dequeue_pos q + of_nat j)) =
         m_dequeue_pos q + of_nat j + (if j < pending q then 1 else 0)"
    by (rule ring_invE)
  have i: "i < 2 ^ k" using assms(4) k(4) by simp
  have "cell_index q (m_dequeue_pos q + of_nat i) = i"
    using cell_index_multiple[OF k(3) _ i, of m] k(2) by (simp add: assms(3) k(4))
  with all_cells[rule_format, OF i] show ?thesis
    by (simp add: assms(2,3) add.commute)
qed

text \<open>
  C4. After \<open>k * n_elems\<close> pairs of one enqueue and one dequeue on a fresh queue, all of
  which succeed, both cursors are \<open>k * n_elems\<close>, the sequence number of every cell is
  its initial value plus \<open>k * n_elems\<close>, mask and ring size are unchanged, and every
  further sequence of calls returns what it returns on the fresh queue. The payload slots
  hold the values last stored in them, where a fresh queue holds whatever its raw storage
  held: the state is the one the constructor builds over storage with these payloads, with
  both cursors and every sequence number advanced by \<open>k * n_elems\<close>.
\<close>

theorem wrap_after_full_rounds:
  assumes "mpmc_bq raw n_elems = Some q0" and "length vs = k * unat n_elems"
    and "\<forall>c. eventually_succeeds (sch c)"
  shows "\<exists>q. run q0 sch (concat (map (\<lambda>v. [Call_enqueue v, Call_dequeue]) vs)) =
               Some (concat (map (\<lambda>v. [Ret_enqueue True, Ret_dequeue (Some v)]) vs), q) \<and>
             m_enqueue_pos q = of_nat (k * unat n_elems) \<and>
             m_dequeue_pos q = of_nat (k * unat n_elems) \<and>
             m_capacity q = m_capacity q0 \<and>
             length (m_ring q) = length (m_ring q0) \<and>
             (\<forall>i < unat n_elems.
                m_pos (m_ring q ! i) = m_pos (m_ring q0 ! i) + of_nat (k * unat n_elems)) \<and>
             (\<forall>sch' cs. map_option fst (run q sch' cs) = map_option fst (run q0 sch' cs)) \<and>
             (\<exists>qf. mpmc_bq (\<lambda>i. m_ring q ! i) n_elems = Some qf \<and>
                   q = qf\<lparr>m_ring := map (\<lambda>c. c\<lparr>m_pos := m_pos c + of_nat (k * unat n_elems)\<rparr>)
                                      (m_ring qf),
                          m_enqueue_pos := of_nat (k * unat n_elems),
                          m_dequeue_pos := of_nat (k * unat n_elems)\<rparr>)"
proof -
  note fresh = ring_inv_fresh[OF assms(1)]
  note f = mpmc_bq_fields[OF assms(1)]
  let ?cs = "concat (map (\<lambda>v. [Call_enqueue v, Call_dequeue]) vs)"
  let ?rs = "concat (map (\<lambda>v. [Ret_enqueue True, Ret_dequeue (Some v)]) vs)"
  have c0: "contents q0 = []" using fresh(2) by (simp add: contents_def)
  have "2 \<le> unat n_elems"
    using mpmc_bq_Some(1)[OF assms(1)] by (simp add: word_le_nat_alt)
  then have "0 < unat n_elems" by simp
  then have fr: "fifo_run (unat n_elems) [] ?cs = (?rs, [])"
    by (rule fifo_run_pairs)
  from run_by_fifo[OF fresh(1) assms(3), of ?cs] obtain q where
    q: "run q0 sch ?cs = Some (fst (fifo_run (unat n_elems) [] ?cs), q)"
      "ring_inv q" "length (m_ring q) = unat n_elems"
      "contents q = snd (fifo_run (unat n_elems) [] ?cs)"
      "m_enqueue_pos q = m_enqueue_pos q0 +
         of_nat (length (enqueued ?cs (fst (fifo_run (unat n_elems) [] ?cs))))"
      "m_dequeue_pos q = m_dequeue_pos q0 +
         of_nat (length (dequeued (fst (fifo_run (unat n_elems) [] ?cs))))"
    unfolding c0 fresh(3) by blast
  from q(1) have run: "run q0 sch ?cs = Some (?rs, q)" by (simp only: fr fst_conv)
  from q(4) have cq: "contents q = []" by (simp only: fr snd_conv)
  from q(5) have e: "m_enqueue_pos q = of_nat (k * unat n_elems)"
    by (simp only: fr fst_conv enqueued_pairs assms(2) f(3)) simp
  from q(6) have d: "m_dequeue_pos q = of_nat (k * unat n_elems)"
    by (simp only: fr fst_conv dequeued_pairs assms(2) f(4)) simp
  have cap: "m_capacity q = m_capacity q0"
  proof -
    have "m_capacity q + 1 = m_capacity q0 + 1"
      using ring_inv_capacity[OF q(2)] ring_inv_capacity[OF fresh(1)] q(3) fresh(3) by simp
    then show ?thesis by simp
  qed
  have p0: "pending q = 0" using e d by (simp add: pending_def)
  have cells: "m_pos (m_ring q ! i) = m_pos (m_ring q0 ! i) + of_nat (k * unat n_elems)"
    if "i < unat n_elems" for i
  proof -
    have "m_pos (m_ring q ! i) = of_nat i + of_nat (k * length (m_ring q))"
      using that by (intro armed_cells[OF q(2) p0]) (simp_all add: d q(3))
    moreover have "m_pos (m_ring q0 ! i) = of_nat i"
      using f(5)[OF that] by simp
    ultimately show ?thesis by (simp add: q(3))
  qed
  have same: "map_option fst (run q sch' cs) = map_option fst (run q0 sch' cs)" for sch' cs
    by (rule run_same_behaviour[OF q(2) fresh(1)]) (simp_all add: cq c0 q(3) fresh(3))
  have again: "\<exists>qf. mpmc_bq (\<lambda>i. m_ring q ! i) n_elems = Some qf \<and>
                   q = qf\<lparr>m_ring := map (\<lambda>c. c\<lparr>m_pos := m_pos c + of_nat (k * unat n_elems)\<rparr>)
                                      (m_ring qf),
                          m_enqueue_pos := of_nat (k * unat n_elems),
                          m_dequeue_pos := of_nat (k * unat n_elems)\<rparr>"
  proof -
    have "mpmc_bq (\<lambda>i. m_ring q ! i) n_elems \<noteq> None"
      using mpmc_bq_Some(1,2)[OF assms(1)] by (simp add: mpmc_bq_def Let_def)
    then obtain qf where qf: "mpmc_bq (\<lambda>i. m_ring q ! i) n_elems = Some qf" by auto
    note g = mpmc_bq_fields[OF qf]
    have "m_ring q = map (\<lambda>c. c\<lparr>m_pos := m_pos c + of_nat (k * unat n_elems)\<rparr>) (m_ring qf)"
    proof (rule nth_equalityI)
      show "length (m_ring q) =
            length (map (\<lambda>c. c\<lparr>m_pos := m_pos c + of_nat (k * unat n_elems)\<rparr>) (m_ring qf))"
        by (simp add: q(3) g(1))
    next
      fix i assume "i < length (m_ring q)"
      then have i: "i < unat n_elems" by (simp add: q(3))
      have "m_pos (m_ring q ! i) = of_nat i + of_nat (k * unat n_elems)"
        using cells[OF i] f(5)[OF i] by simp
      then show "m_ring q ! i =
            map (\<lambda>c. c\<lparr>m_pos := m_pos c + of_nat (k * unat n_elems)\<rparr>) (m_ring qf) ! i"
        using i by (cases "m_ring q ! i") (simp add: g(1) g(5))
    qed
    then have "q = qf\<lparr>m_ring := map (\<lambda>c. c\<lparr>m_pos := m_pos c + of_nat (k * unat n_elems)\<rparr>)
                                      (m_ring qf),
                          m_enqueue_pos := of_nat (k * unat n_elems),
                          m_dequeue_pos := of_nat (k * unat n_elems)\<rparr>"
      using e d cap g(2) f(2) by (cases q, cases qf) simp
    with qf show ?thesis by blast
  qed
  have len: "length (m_ring q) = length (m_ring q0)" by (simp add: q(3) fresh(3))
  have all_cells: "\<forall>i < unat n_elems.
      m_pos (m_ring q ! i) = m_pos (m_ring q0 ! i) + of_nat (k * unat n_elems)"
    using cells by blast
  have all_same: "\<forall>sch' cs. map_option fst (run q sch' cs) = map_option fst (run q0 sch' cs)"
    using same by blast
  show ?thesis
    by (rule exI[of _ q], intro conjI) (fact run e d cap len all_cells all_same again)+
qed

theorem wrap_after_full_rounds_witness:
  "mpmc_bq (\<lambda>i. \<lparr>m_pos = 0, m_data = 0 :: nat\<rparr>) 2 =
     Some \<lparr>m_ring = [\<lparr>m_pos = 0, m_data = 0\<rparr>, \<lparr>m_pos = 1, m_data = 0\<rparr>],
           m_capacity = 1, m_enqueue_pos = 0, m_dequeue_pos = 0\<rparr> \<and>
   length [5, 6, 7, 8 :: nat] = 2 * unat (2 :: 64 word) \<and>
   (\<forall>c. eventually_succeeds (\<lambda>i. i < c)) \<and>
   run \<lparr>m_ring = [\<lparr>m_pos = 0, m_data = 0 :: nat\<rparr>, \<lparr>m_pos = 1, m_data = 0\<rparr>],
        m_capacity = 1, m_enqueue_pos = 0, m_dequeue_pos = 0\<rparr>
       (\<lambda>c i. i < c)
       [Call_enqueue 5, Call_dequeue, Call_enqueue 6, Call_dequeue,
        Call_enqueue 7, Call_dequeue, Call_enqueue 8, Call_dequeue] =
     Some ([Ret_enqueue True, Ret_dequeue (Some 5), Ret_enqueue True, Ret_dequeue (Some 6),
            Ret_enqueue True, Ret_dequeue (Some 7), Ret_enqueue True, Ret_dequeue (Some 8)],
           \<lparr>m_ring = [\<lparr>m_pos = 4, m_data = 7\<rparr>, \<lparr>m_pos = 5, m_data = 8\<rparr>],
            m_capacity = 1, m_enqueue_pos = 4, m_dequeue_pos = 4\<rparr>)"
proof -
  let ?q0 = "\<lparr>m_ring = [\<lparr>m_pos = 0, m_data = 0 :: nat\<rparr>, \<lparr>m_pos = 1, m_data = 0\<rparr>],
        m_capacity = 1, m_enqueue_pos = 0, m_dequeue_pos = 0\<rparr>"
  let ?cs = "[Call_enqueue 5, Call_dequeue, Call_enqueue 6, Call_dequeue,
        Call_enqueue 7, Call_dequeue, Call_enqueue 8, Call_dequeue :: nat call]"
  let ?rs = "[Ret_enqueue True, Ret_dequeue (Some 5), Ret_enqueue True, Ret_dequeue (Some 6),
            Ret_enqueue True, Ret_dequeue (Some 7), Ret_enqueue True, Ret_dequeue (Some (8 :: nat))]"
  have a: "mpmc_bq (\<lambda>i. \<lparr>m_pos = 0, m_data = 0 :: nat\<rparr>) 2 = Some ?q0"
    by code_simp
  have l: "length [5, 6, 7, 8 :: nat] = 2 * unat (2 :: 64 word)" by simp
  have fair: "\<forall>c. eventually_succeeds ((\<lambda>c i. i < c) c)"
    by (auto simp: eventually_succeeds_def)
  from wrap_after_full_rounds[OF a l fair]
  obtain q where r: "run ?q0 (\<lambda>c i. i < c)
        (concat (map (\<lambda>v. [Call_enqueue v, Call_dequeue]) [5, 6, 7, 8 :: nat])) =
        Some (concat (map (\<lambda>v. [Ret_enqueue True, Ret_dequeue (Some v)]) [5, 6, 7, 8]), q)"
    by blast
  have "run ?q0 (\<lambda>c i. i < c) ?cs =
        Some (?rs, \<lparr>m_ring = [\<lparr>m_pos = 4, m_data = 7\<rparr>, \<lparr>m_pos = 5, m_data = 8\<rparr>],
            m_capacity = 1, m_enqueue_pos = 4, m_dequeue_pos = 4\<rparr>)"
    by code_simp
  with a l fair r show ?thesis by (simp del: run.simps)
qed

text \<open>
  C9, as the code has it. \<open>compare_exchange_weak\<close> may fail although the cursor holds the
  expected value, so the compare-exchange reached through \<open>diff == 0\<close> need not succeed
  in the first iteration. What holds on every queue reached sequentially from a fresh one:
  a call of enqueue or dequeue returns exactly when the queue is full (respectively empty)
  or the compare-exchange does not fail spuriously for ever; it then returns what the call
  without spurious failures returns; and an iteration whose compare-exchange does not fail
  spuriously is the last one (it ends in \<open>break\<close> or \<open>return false\<close>, never in another
  iteration, and the \<open>diff > 0\<close> branch is not taken).
\<close>

theorem sequential_calls_return:
  assumes "mpmc_bq raw n_elems = Some q0" and "run q0 sch cs = Some (rs, q)"
  shows "((\<exists>r. enqueue q spur data = Some r) \<longleftrightarrow>
            eventually_succeeds spur \<or>
            unat (m_enqueue_pos q - m_dequeue_pos q) = unat n_elems) \<and>
         ((\<exists>r. dequeue q spur = Some r) \<longleftrightarrow>
            eventually_succeeds spur \<or> m_enqueue_pos q = m_dequeue_pos q) \<and>
         (eventually_succeeds spur \<longrightarrow>
            enqueue q spur data = enqueue q (\<lambda>i. False) data \<and>
            dequeue q spur = dequeue q (\<lambda>i. False)) \<and>
         (\<forall>pos'. enqueue_iter q False (m_enqueue_pos q) \<noteq> Continue pos') \<and>
         (\<forall>pos'. dequeue_iter q False (m_dequeue_pos q) \<noteq> Continue pos')"
proof -
  note fresh = ring_inv_fresh[OF assms(1)]
  from run_refines[OF fresh(1) assms(2)] fresh(3)
  have inv: "ring_inv q" and len: "length (m_ring q) = unat n_elems" by simp_all
  have never: "eventually_succeeds (\<lambda>i. False)" by (simp add: eventually_succeeds_def)
  have p0: "pending q = 0 \<longleftrightarrow> m_enqueue_pos q = m_dequeue_pos q"
    by (simp add: pending_def unat_eq_0)
  have "(\<exists>r. enqueue q spur data = Some r) \<longleftrightarrow>
            eventually_succeeds spur \<or> pending q = unat n_elems"
    by (auto simp: enqueue_inv_eq[OF inv] len)
  moreover have "(\<exists>r. dequeue q spur = Some r) \<longleftrightarrow>
            eventually_succeeds spur \<or> m_enqueue_pos q = m_dequeue_pos q"
    by (auto simp: dequeue_inv_eq[OF inv] p0)
  moreover have "enqueue q spur data = enqueue q (\<lambda>i. False) data"
    "dequeue q spur = dequeue q (\<lambda>i. False)" if "eventually_succeeds spur"
    using that never by (simp_all add: enqueue_inv_eq[OF inv] dequeue_inv_eq[OF inv])
  moreover have "enqueue_iter q False (m_enqueue_pos q) \<noteq> Continue pos'" for pos'
    using enqueue_diff_inv(2)[OF inv] by (simp add: enqueue_iter_at_cursor)
  moreover have "dequeue_iter q False (m_dequeue_pos q) \<noteq> Continue pos'" for pos'
    using dequeue_diff_inv(2)[OF inv] by (simp add: dequeue_iter_at_cursor)
  ultimately show ?thesis by (simp add: pending_def)
qed

theorem sequential_calls_return_witness:
  "mpmc_bq (\<lambda>i. \<lparr>m_pos = 0, m_data = 0 :: nat\<rparr>) 2 =
     Some \<lparr>m_ring = [\<lparr>m_pos = 0, m_data = 0\<rparr>, \<lparr>m_pos = 1, m_data = 0\<rparr>],
           m_capacity = 1, m_enqueue_pos = 0, m_dequeue_pos = 0\<rparr> \<and>
   run \<lparr>m_ring = [\<lparr>m_pos = 0, m_data = 0 :: nat\<rparr>, \<lparr>m_pos = 1, m_data = 0\<rparr>],
        m_capacity = 1, m_enqueue_pos = 0, m_dequeue_pos = 0\<rparr>
       (\<lambda>c i. False) [Call_enqueue 1] =
     Some ([Ret_enqueue True],
           \<lparr>m_ring = [\<lparr>m_pos = 1, m_data = 1\<rparr>, \<lparr>m_pos = 1, m_data = 0\<rparr>],
            m_capacity = 1, m_enqueue_pos = 1, m_dequeue_pos = 0\<rparr>) \<and>
   eventually_succeeds (\<lambda>i. i < 3) \<and>
   enqueue \<lparr>m_ring = [\<lparr>m_pos = 1, m_data = 1 :: nat\<rparr>, \<lparr>m_pos = 1, m_data = 0\<rparr>],
            m_capacity = 1, m_enqueue_pos = 1, m_dequeue_pos = 0\<rparr> (\<lambda>i. i < 3) 9 =
     Some (True, \<lparr>m_ring = [\<lparr>m_pos = 1, m_data = 1\<rparr>, \<lparr>m_pos = 2, m_data = 9\<rparr>],
                  m_capacity = 1, m_enqueue_pos = 2, m_dequeue_pos = 0\<rparr>)"
proof -
  let ?q1 = "\<lparr>m_ring = [\<lparr>m_pos = 1, m_data = 1 :: nat\<rparr>, \<lparr>m_pos = 1, m_data = 0\<rparr>],
            m_capacity = 1, m_enqueue_pos = 1, m_dequeue_pos = 0\<rparr>"
  have a: "mpmc_bq (\<lambda>i. \<lparr>m_pos = 0, m_data = 0 :: nat\<rparr>) 2 =
     Some \<lparr>m_ring = [\<lparr>m_pos = 0, m_data = 0\<rparr>, \<lparr>m_pos = 1, m_data = 0\<rparr>],
           m_capacity = 1, m_enqueue_pos = 0, m_dequeue_pos = 0\<rparr>"
    by code_simp
  have b: "run \<lparr>m_ring = [\<lparr>m_pos = 0, m_data = 0 :: nat\<rparr>, \<lparr>m_pos = 1, m_data = 0\<rparr>],
        m_capacity = 1, m_enqueue_pos = 0, m_dequeue_pos = 0\<rparr>
       (\<lambda>c i. False) [Call_enqueue 1] = Some ([Ret_enqueue True], ?q1)"
    by code_simp
  have fair: "eventually_succeeds (\<lambda>i. i < 3)"
    by (auto simp: eventually_succeeds_def)
  have "enqueue ?q1 (\<lambda>i. False) 9 =
     Some (True, \<lparr>m_ring = [\<lparr>m_pos = 1, m_data = 1\<rparr>, \<lparr>m_pos = 2, m_data = 9\<rparr>],
                  m_capacity = 1, m_enqueue_pos = 2, m_dequeue_pos = 0\<rparr>)"
    by code_simp
  with sequential_calls_return[OF a b, of "\<lambda>i. i < 3" 9] fair a b show ?thesis
    by (simp del: run.simps)
qed

text \<open>
  The claim as written fails on a fresh queue of capacity 2: the first iteration of enqueue
  computes \<open>diff = 0\<close>, and a compare-exchange that fails spuriously there sends the loop
  into a second iteration, which then claims the ticket.
\<close>

theorem first_compare_exchange_may_fail:
  "mpmc_bq (\<lambda>i. \<lparr>m_pos = 0, m_data = 0 :: nat\<rparr>) 2 =
     Some \<lparr>m_ring = [\<lparr>m_pos = 0, m_data = 0\<rparr>, \<lparr>m_pos = 1, m_data = 0\<rparr>],
           m_capacity = 1, m_enqueue_pos = 0, m_dequeue_pos = 0\<rparr> \<and>
   enqueue_diff \<lparr>m_ring = [\<lparr>m_pos = 0, m_data = 0 :: nat\<rparr>, \<lparr>m_pos = 1, m_data = 0\<rparr>],
                 m_capacity = 1, m_enqueue_pos = 0, m_dequeue_pos = 0\<rparr> = 0 \<and>
   compare_exchange_weak True 0 0 1 = (False, 0, 0) \<and>
   enqueue_iter \<lparr>m_ring = [\<lparr>m_pos = 0, m_data = 0 :: nat\<rparr>, \<lparr>m_pos = 1, m_data = 0\<rparr>],
                 m_capacity = 1, m_enqueue_pos = 0, m_dequeue_pos = 0\<rparr> True 0 = Continue 0 \<and>
   enqueue \<lparr>m_ring = [\<lparr>m_pos = 0, m_data = 0 :: nat\<rparr>, \<lparr>m_pos = 1, m_data = 0\<rparr>],
            m_capacity = 1, m_enqueue_pos = 0, m_dequeue_pos = 0\<rparr> (\<lambda>i. i = 0) 7 =
     Some (True, \<lparr>m_ring = [\<lparr>m_pos = 1, m_data = 7\<rparr>, \<lparr>m_pos = 1, m_data = 0\<rparr>],
                  m_capacity = 1, m_enqueue_pos = 1, m_dequeue_pos = 0\<rparr>)"
  by code_simp

end
